theory Spec2Isabelle
  imports Main "HOL-Library.Word"
begin

unbundle bit_operations_syntax

section \<open>sboxalg.c: the S-box by subfield arithmetic\<close>

text \<open>
  The functions of \<^verbatim>\<open>sboxalg.c\<close> on C \<^verbatim>\<open>int\<close>s. Every value stays within one
  byte, so the integers are mathematical ones; \<^verbatim>\<open>>>\<close> is \<open>drop_bit\<close>, \<^verbatim>\<open><<\<close> is
  \<open>push_bit\<close>.
\<close>

definition G4_mul :: "int \<Rightarrow> int \<Rightarrow> int" where
  "G4_mul x y =
     (let a = drop_bit 1 (x AND 2);
          b = x AND 1;
          c = drop_bit 1 (y AND 2);
          d = y AND 1;
          e = (a XOR b) AND (c XOR d);
          p = (a AND c) XOR e;
          q = (b AND d) XOR e
      in push_bit 1 p OR q)"

definition G4_scl_N :: "int \<Rightarrow> int" where
  "G4_scl_N x =
     (let a = drop_bit 1 (x AND 2);
          b = x AND 1;
          p = b;
          q = a XOR b
      in push_bit 1 p OR q)"

definition G4_scl_N2 :: "int \<Rightarrow> int" where
  "G4_scl_N2 x =
     (let a = drop_bit 1 (x AND 2);
          b = x AND 1;
          p = a XOR b;
          q = a
      in push_bit 1 p OR q)"

definition G4_sq :: "int \<Rightarrow> int" where
  "G4_sq x =
     (let a = drop_bit 1 (x AND 2);
          b = x AND 1
      in push_bit 1 b OR a)"

definition G16_mul :: "int \<Rightarrow> int \<Rightarrow> int" where
  "G16_mul x y =
     (let a = drop_bit 2 (x AND 12);
          b = x AND 3;
          c = drop_bit 2 (y AND 12);
          d = y AND 3;
          e = G4_mul (a XOR b) (c XOR d);
          e = G4_scl_N e;
          p = G4_mul a c XOR e;
          q = G4_mul b d XOR e
      in push_bit 2 p OR q)"

definition G16_sq_scl :: "int \<Rightarrow> int" where
  "G16_sq_scl x =
     (let a = drop_bit 2 (x AND 12);
          b = x AND 3;
          p = G4_sq (a XOR b);
          q = G4_scl_N2 (G4_sq b)
      in push_bit 2 p OR q)"

definition G16_inv :: "int \<Rightarrow> int" where
  "G16_inv x =
     (let a = drop_bit 2 (x AND 12);
          b = x AND 3;
          c = G4_scl_N (G4_sq (a XOR b));
          d = G4_mul a b;
          e = G4_sq (c XOR d);
          p = G4_mul e b;
          q = G4_mul e a
      in push_bit 2 p OR q)"

definition G256_inv :: "int \<Rightarrow> int" where
  "G256_inv x =
     (let a = drop_bit 4 (x AND 240);
          b = x AND 15;
          c = G16_sq_scl (a XOR b);
          d = G16_mul a b;
          e = G16_inv (c XOR d);
          p = G16_mul e b;
          q = G16_mul e a
      in push_bit 4 p OR q)"

text \<open>
  The loop of \<^verbatim>\<open>G256_newbasis\<close>, with \<open>i\<close> running from 7 down to 0: the second
  argument is the number of rounds left, so the round reads \<^verbatim>\<open>b[i]\<close> for
  \<open>i\<close> one less. The four matrices are arrays of 8 entries.
\<close>

fun newbasis_loop :: "int list \<Rightarrow> nat \<Rightarrow> int \<Rightarrow> int \<Rightarrow> int" where
  "newbasis_loop b 0 x y = y"
| "newbasis_loop b (Suc i) x y =
     newbasis_loop b i (drop_bit 1 x) (if x AND 1 \<noteq> 0 then y XOR b ! i else y)"

definition G256_newbasis :: "int \<Rightarrow> int list \<Rightarrow> int" where
  "G256_newbasis x b = newbasis_loop b 8 x 0"

definition A2X :: "int list" where
  "A2X = [0x98, 0xF3, 0xF2, 0x48, 0x09, 0x81, 0xA9, 0xFF]"
definition X2A :: "int list" where
  "X2A = [0x64, 0x78, 0x6E, 0x8C, 0x68, 0x29, 0xDE, 0x60]"
definition X2S :: "int list" where
  "X2S = [0x58, 0x2D, 0x9E, 0x0B, 0xDC, 0x04, 0x03, 0x24]"
definition S2X :: "int list" where
  "S2X = [0x8C, 0x79, 0x05, 0xEB, 0x12, 0x04, 0x51, 0x53]"

definition Sbox :: "int \<Rightarrow> int" where
  "Sbox n =
     (let t = G256_newbasis n A2X;
          t = G256_inv t;
          t = G256_newbasis t X2S
      in t XOR 0x63)"

definition iSbox :: "int \<Rightarrow> int" where
  "iSbox n =
     (let t = G256_newbasis (n XOR 0x63) S2X;
          t = G256_inv t;
          t = G256_newbasis t X2A
      in t)"


section \<open>bestboth.c: the gate-count search\<close>

subsection \<open>Outcomes, arrays and loops\<close>

text \<open>
  A C function of \<^verbatim>\<open>bestboth.c\<close> either returns or leaves the language's defined
  behaviour. \<open>OutOfBounds\<close> marks an access outside an array (the source never tests an
  index, so such an access is undefined behaviour in C). The source contains no
  \<^verbatim>\<open>assert\<close>, no \<^verbatim>\<open>abort\<close> and no \<^verbatim>\<open>exit\<close>, so there is no outcome for
  them. \<open>OutOfFuel\<close> belongs to the model only: the recursion of \<^verbatim>\<open>bestgates\<close> is
  given a depth bound, and this is the value when the bound is hit.
\<close>

datatype fault = OutOfFuel | OutOfBounds

text \<open>Reading and writing a C array (a list of the array's declared size) at an \<^verbatim>\<open>int\<close> index.\<close>

definition rd :: "'a list \<Rightarrow> int \<Rightarrow> fault + 'a" where
  "rd xs i = (if 0 \<le> i \<and> i < int (length xs) then Inr (xs ! nat i) else Inl OutOfBounds)"

definition wr :: "'a list \<Rightarrow> int \<Rightarrow> 'a \<Rightarrow> fault + 'a list" where
  "wr xs i v = (if 0 \<le> i \<and> i < int (length xs) then Inr (xs[nat i := v]) else Inl OutOfBounds)"

text \<open>
  \<^verbatim>\<open>memcpy(dst + d, src + s, len)\<close> on arrays of equally sized elements, \<open>len\<close> counted
  in elements. A negative \<open>len\<close> is a huge \<^verbatim>\<open>size_t\<close> in C, hence out of bounds.
\<close>

definition memcpy :: "'a list \<Rightarrow> int \<Rightarrow> 'a list \<Rightarrow> int \<Rightarrow> int \<Rightarrow> fault + 'a list" where
  "memcpy dst d src s len =
     (if 0 \<le> len \<and> 0 \<le> d \<and> d + len \<le> int (length dst) \<and> 0 \<le> s \<and> s + len \<le> int (length src)
      then Inr (take (nat d) dst @ take (nat len) (drop (nat s) src) @ drop (nat (d + len)) dst)
      else Inl OutOfBounds)"

text \<open>Sequencing: the second step runs on the value of the first unless that faulted.\<close>

definition bnd :: "fault + 'a \<Rightarrow> ('a \<Rightarrow> fault + 'b) \<Rightarrow> fault + 'b" where
  "bnd m f = (case m of Inl e \<Rightarrow> Inl e | Inr x \<Rightarrow> f x)"

text \<open>A \<^verbatim>\<open>for\<close> loop over the values \<open>xs\<close> of its counter; a fault ends it.\<close>

fun for_each :: "('a \<Rightarrow> 's \<Rightarrow> fault + 's) \<Rightarrow> 'a list \<Rightarrow> 's \<Rightarrow> fault + 's" where
  "for_each f [] s = Inr s"
| "for_each f (x # xs) s = bnd (f x s) (for_each f xs)"

subsection \<open>The table \<^verbatim>\<open>share\<close> (main, lines 183--189)\<close>

text \<open>
  \<^verbatim>\<open>for (j = i & 0xFFFF; j; j >>= 1) k += j & 1;\<close>
  The counter \<open>j\<close> starts at \<open>i & 0xFFFF\<close> and is never negative, so it is a natural
  number here; \<open>k\<close> is the C \<^verbatim>\<open>long\<close>.
\<close>

function bitcount :: "nat \<Rightarrow> int \<Rightarrow> int" where
  "bitcount j k = (if j = 0 then k else bitcount (drop_bit 1 j) (k + int (j AND 1)))"
  by pat_completeness auto
termination
  by (relation "measure fst") (auto simp: drop_bit_eq_div)

text \<open>
  \<open>share_entry i\<close> is the value main stores in \<^verbatim>\<open>share[i]\<close>, for \<open>0 \<le> i < 65536\<close>:
  \<^verbatim>\<open>share[0] = 0\<close>, and \<^verbatim>\<open>share[i] = k - 1\<close> after the loop above for the others.
  \<open>share c\<close> is the lookup \<^verbatim>\<open>share[c]\<close> in the 65536 entries.
\<close>

definition share_entry :: "int \<Rightarrow> int" where
  "share_entry i = (if i = 0 then 0 else bitcount (nat (i AND 0xFFFF)) 0 - 1)"

definition share :: "int \<Rightarrow> fault + int" where
  "share c = (if 0 \<le> c \<and> c < 65536 then Inr (share_entry c) else Inl OutOfBounds)"

subsection \<open>The state (lines 46--54)\<close>

text \<open>
  \<^verbatim>\<open>struct gatematrix\<close>: \<open>mat\<close> has 128 entries of type \<^verbatim>\<open>uint32_t\<close>, \<open>ind\<close> has 256
  entries of type \<^verbatim>\<open>char\<close> (every value the program stores there is a column index
  below 128, so the entries are kept as the integers stored), \<open>n\<close> and \<open>g\<close> are
  \<^verbatim>\<open>int\<close>. The sizes are the lengths of the lists. The two counts are mathematical
  integers here: \<open>n\<close> only grows by one per combine and \<open>g\<close> only shrinks by a table
  value, at most 15, per combine, so from the counts main stores neither comes near the
  bounds of a C \<^verbatim>\<open>int\<close>.
\<close>

record GateMat =
  mat :: "32 word list"
  ind :: "int list"
  n :: int
  g :: int

definition sized :: "GateMat \<Rightarrow> bool" where
  "sized T = (length (mat T) = 128 \<and> length (ind T) = 256)"

text \<open>
  What the column loops of \<^verbatim>\<open>bestgates\<close> carry from one pair to the next: the global
  \<^verbatim>\<open>test\<close> and the locals \<^verbatim>\<open>gb\<close>, \<^verbatim>\<open>nb\<close> and \<^verbatim>\<open>indb\<close>.
\<close>

record locals =
  test :: GateMat
  gb :: int
  nb :: int
  indb :: "int list"

subsection \<open>copyMat (lines 81--88)\<close>

text \<open>\<open>copyMat p q\<close> is the new value of \<^verbatim>\<open>*q\<close>; entries beyond the copied ones stay.\<close>

definition copyMat :: "GateMat \<Rightarrow> GateMat \<Rightarrow> fault + GateMat" where
  "copyMat p q =
     (let n0 = n p in
      bnd (memcpy (mat q) 0 (mat p) 0 n0) (\<lambda>m.
      bnd (memcpy (ind q) 0 (ind p) 0 ((n0 - 8) * 2)) (\<lambda>d.
      Inr (q\<lparr>mat := m, ind := d, n := n0, g := g p\<rparr>))))"

subsection \<open>bestgates (lines 97--150)\<close>

text \<open>
  Lines 110--115: the pair of indices recorded last, or \<open>(0, 0)\<close> for the original matrix.
\<close>

definition entry_pair :: "GateMat \<Rightarrow> fault + int \<times> int" where
  "entry_pair T =
     (let n0 = n T; n2 = 2 * (n0 - 8) in
      if n0 = 8 then Inr (0, 0)
      else bnd (rd (ind T) (n2 - 2)) (\<lambda>io.
           bnd (rd (ind T) (n2 - 1)) (\<lambda>jo. Inr (io, jo))))"

text \<open>
  Lines 125--133, the combine: \<open>n0\<close> and \<open>g0\<close> are the locals \<^verbatim>\<open>n\<close> and \<^verbatim>\<open>g\<close>
  that \<^verbatim>\<open>bestgates\<close> read on entry, \<open>c\<close> the overlap and \<open>t\<close> its table value.
\<close>

definition combine :: "int \<Rightarrow> int \<Rightarrow> int \<Rightarrow> int \<Rightarrow> 32 word \<Rightarrow> int \<Rightarrow> GateMat \<Rightarrow> fault + GateMat" where
  "combine n0 g0 i j c t T =
     (let n2 = 2 * (n0 - 8); n2p = n2 + 1 in
      bnd (rd (mat T) i) (\<lambda>mi.
      bnd (wr (mat T) i (mi XOR c)) (\<lambda>m1.
      bnd (rd m1 j) (\<lambda>mj.
      bnd (wr m1 j (mj XOR c)) (\<lambda>m2.
      bnd (wr m2 n0 c) (\<lambda>m3.
      bnd (wr (ind T) n2 i) (\<lambda>d1.
      bnd (wr d1 n2p j) (\<lambda>d2.
      Inr (T\<lparr>mat := m3, ind := d2, n := n0 + 1, g := g0 - t\<rparr>)))))))))"

text \<open>Lines 135--136, the undo: the two saved columns are written back, nothing else.\<close>

definition undo :: "int \<Rightarrow> int \<Rightarrow> 32 word \<Rightarrow> 32 word \<Rightarrow> GateMat \<Rightarrow> fault + GateMat" where
  "undo i j ci cj T =
     bnd (wr (mat T) i ci) (\<lambda>m1.
     bnd (wr m1 j cj) (\<lambda>m2.
     Inr (T\<lparr>mat := m2\<rparr>)))"

text \<open>Lines 137--141: a result better than the best so far is saved in the locals.\<close>

definition save_best :: "int \<Rightarrow> locals \<Rightarrow> fault + locals" where
  "save_best n0 L =
     (let T = test L; n2 = 2 * (n0 - 8) in
      if g T < gb L then
        bnd (memcpy (indb L) 0 (ind T) n2 ((n T - n0) * 2)) (\<lambda>b.
        Inr (L\<lparr>indb := b, nb := n T, gb := g T\<rparr>))
      else Inr L)"

text \<open>
  Lines 125--141 for one pair: save the two columns, combine, recurse (\<open>rec\<close> is the
  recursive call), undo, save if best.
\<close>

definition expand ::
  "(GateMat \<Rightarrow> fault + GateMat) \<Rightarrow> int \<Rightarrow> int \<Rightarrow> int \<Rightarrow> int \<Rightarrow> 32 word \<Rightarrow> int \<Rightarrow> locals \<Rightarrow> fault + locals" where
  "expand rec n0 g0 i j c t L =
     bnd (rd (mat (test L)) i) (\<lambda>ci.
     bnd (rd (mat (test L)) j) (\<lambda>cj.
     bnd (combine n0 g0 i j c t (test L)) (\<lambda>T1.
     bnd (rec T1) (\<lambda>T2.
     bnd (undo i j ci cj T2) (\<lambda>T3.
     save_best n0 (L\<lparr>test := T3\<rparr>))))))"

text \<open>Lines 118--142, the body of the inner loop for the pair \<open>(i, j)\<close>.\<close>

definition pair_step ::
  "(GateMat \<Rightarrow> fault + GateMat) \<Rightarrow> int \<Rightarrow> int \<Rightarrow> int \<Rightarrow> int \<Rightarrow> int \<Rightarrow> int \<Rightarrow> locals \<Rightarrow> fault + locals" where
  "pair_step rec n0 g0 io jo i j L =
     bnd (rd (mat (test L)) i) (\<lambda>mi.
     bnd (rd (mat (test L)) j) (\<lambda>mj.
     let c = mi AND mj in
     bnd (share (uint c)) (\<lambda>t.
     if t \<noteq> 0 then
       if i < io \<and> j \<noteq> io \<and> j \<noteq> jo \<and> j < n0 - 1 then Inr L
       else expand rec n0 g0 i j c t L
     else Inr L)))"

text \<open>Line 117: \<^verbatim>\<open>for (j = i + 1; j < n; j++)\<close>.\<close>

definition column_loop ::
  "(GateMat \<Rightarrow> fault + GateMat) \<Rightarrow> int \<Rightarrow> int \<Rightarrow> int \<Rightarrow> int \<Rightarrow> int \<Rightarrow> locals \<Rightarrow> fault + locals" where
  "column_loop rec n0 g0 io jo i L = for_each (pair_step rec n0 g0 io jo i) [i + 1..n0 - 1] L"

text \<open>
  The whole function, with \<open>rec\<close> for its recursive call. \<^verbatim>\<open>nb\<close> and \<^verbatim>\<open>indb\<close> are
  uninitialised in C; they are read in lines 144--147 only when \<^verbatim>\<open>gb < 1024\<close>, that is
  after lines 138--140 wrote them, so the values they start with here are never seen.
\<close>

definition bestgates_body :: "(GateMat \<Rightarrow> fault + GateMat) \<Rightarrow> GateMat \<Rightarrow> fault + GateMat" where
  "bestgates_body rec T =
     (let n0 = n T; g0 = g T; nm = n0 - 1; n2 = 2 * (n0 - 8) in
      bnd (entry_pair T) (\<lambda>(io, jo).
      bnd (for_each (column_loop rec n0 g0 io jo) [0..nm - 1]
             \<lparr>test = T, gb = 1024, nb = 0, indb = replicate 256 0\<rparr>) (\<lambda>L.
      if gb L < 1024 then
        bnd (memcpy (ind (test L)) n2 (indb L) 0 ((nb L - n0) * 2)) (\<lambda>d.
        Inr ((test L)\<lparr>ind := d, n := nb L, g := gb L\<rparr>))
      else Inr (test L))))"

text \<open>
  \<open>bestgates k T\<close>: the call \<^verbatim>\<open>bestgates()\<close> with \<^verbatim>\<open>test = T\<close>, allowed \<open>k\<close> nested
  calls; the value is the \<^verbatim>\<open>test\<close> it leaves.
\<close>

primrec bestgates :: "nat \<Rightarrow> GateMat \<Rightarrow> fault + GateMat" where
  "bestgates 0 T = Inl OutOfFuel"
| "bestgates (Suc k) T = bestgates_body (bestgates k) T"

subsection \<open>bestmat (lines 153--168)\<close>

text \<open>Line 159 for one \<open>i\<close>: \<^verbatim>\<open>test.mat[i] = p->mat[i]\<close>.\<close>

definition copy_column :: "GateMat \<Rightarrow> int \<Rightarrow> GateMat \<Rightarrow> fault + GateMat" where
  "copy_column p i T =
     bnd (rd (mat p) i) (\<lambda>v.
     bnd (wr (mat T) i v) (\<lambda>m. Inr (T\<lparr>mat := m\<rparr>)))"

text \<open>Lines 161--166 for one value \<open>k\<close> of the loop counter \<^verbatim>\<open>n\<close>.\<close>

definition replay_step :: "int \<Rightarrow> GateMat \<Rightarrow> fault + GateMat" where
  "replay_step k T =
     bnd (rd (ind T) (k * 2)) (\<lambda>i.
     bnd (rd (ind T) (k * 2 + 1)) (\<lambda>j.
     bnd (rd (mat T) i) (\<lambda>mi.
     bnd (rd (mat T) j) (\<lambda>mj.
     let c = mi AND mj in
     bnd (wr (mat T) i (mi XOR c)) (\<lambda>m1.
     bnd (rd m1 j) (\<lambda>mj'.
     bnd (wr m1 j (mj' XOR c)) (\<lambda>m2.
     bnd (wr m2 (k + 8) c) (\<lambda>m3.
     Inr (T\<lparr>mat := m3\<rparr>)))))))))"

text \<open>
  \<open>bestmat p T\<close>: the call \<^verbatim>\<open>bestmat(p)\<close> with \<^verbatim>\<open>test = T\<close>, where \<open>p\<close> points to an
  object other than \<^verbatim>\<open>test\<close> (main passes \<^verbatim>\<open>&orig[k]\<close>). The value is the pair of
  the new \<^verbatim>\<open>*p\<close> and the new \<^verbatim>\<open>test\<close>.
\<close>

definition bestmat :: "GateMat \<Rightarrow> GateMat \<Rightarrow> fault + GateMat \<times> GateMat" where
  "bestmat p T =
     (let p' = p\<lparr>g := g T\<rparr> in
      bnd (for_each (copy_column p') [0..7] T) (\<lambda>T1.
      bnd (for_each replay_step [0..n T1 - 8 - 1] T1) (\<lambda>T2.
      Inr (p', T2))))"

subsection \<open>main (lines 199--221)\<close>

text \<open>
  \<open>InitMat\<close> holds the 32 bytes \<^verbatim>\<open>sscanf\<close> decoded from the record, in the order
  A2X, X2A, X2S, S2X. Lines 200--203 for one \<open>i\<close> and for \<^verbatim>\<open>orig[k]\<close>: the low byte
  comes from matrix \<open>lo\<close>, the high byte from matrix \<open>hi\<close>.
\<close>

definition load_column :: "int list \<Rightarrow> int \<Rightarrow> int \<Rightarrow> int \<Rightarrow> GateMat \<Rightarrow> fault + GateMat" where
  "load_column InitMat lo hi i p =
     bnd (rd InitMat (8 * lo + i)) (\<lambda>a.
     bnd (rd InitMat (8 * hi + i)) (\<lambda>b.
     bnd (wr (mat p) i (word_of_int (a OR push_bit 8 b))) (\<lambda>m.
     Inr (p\<lparr>mat := m\<rparr>))))"

definition load_orig :: "int list \<Rightarrow> nat \<Rightarrow> GateMat \<Rightarrow> fault + GateMat" where
  "load_orig InitMat k p =
     (if k = 0 then for_each (load_column InitMat 0 3) [0..7] p
      else for_each (load_column InitMat 2 1) [0..7] p)"

text \<open>Lines 208--210 for one \<open>i\<close>: \<^verbatim>\<open>j += share[(orig[k]).mat[i]]\<close>.\<close>

definition add_share :: "GateMat \<Rightarrow> int \<Rightarrow> int \<Rightarrow> fault + int" where
  "add_share p i j =
     bnd (rd (mat p) i) (\<lambda>v.
     bnd (share (uint v)) (\<lambda>s. Inr (j + s)))"

text \<open>Lines 207--211: the column count and the gate count main stores before the search.\<close>

definition init_counts :: "GateMat \<Rightarrow> fault + GateMat" where
  "init_counts p =
     (let p1 = p\<lparr>n := 8\<rparr> in
      bnd (for_each (add_share p1) [0..7] 0) (\<lambda>j.
      Inr (p1\<lparr>g := j - 8\<rparr>)))"

text \<open>
  \<open>make_orig InitMat k p\<close>: \<^verbatim>\<open>orig[k]\<close> as main has built it before the search, from
  the storage \<open>p\<close> it occupies; \<open>handed InitMat k p T\<close>: the \<^verbatim>\<open>test\<close> that line 215
  hands to \<^verbatim>\<open>bestgates\<close>, from the previous \<^verbatim>\<open>test\<close>.
\<close>

definition make_orig :: "int list \<Rightarrow> nat \<Rightarrow> GateMat \<Rightarrow> fault + GateMat" where
  "make_orig InitMat k p =
     bnd (load_orig InitMat k p) init_counts"

definition handed :: "int list \<Rightarrow> nat \<Rightarrow> GateMat \<Rightarrow> GateMat \<Rightarrow> fault + GateMat" where
  "handed InitMat k p T =
     bnd (make_orig InitMat k p) (\<lambda>p1. copyMat p1 T)"

text \<open>Lines 215--217 for one matrix pair: search, then reconstruct.\<close>

definition optimize :: "nat \<Rightarrow> GateMat \<Rightarrow> GateMat \<Rightarrow> fault + GateMat \<times> GateMat" where
  "optimize k p T =
     bnd (copyMat p T) (\<lambda>T1.
     bnd (bestgates k T1) (\<lambda>T2. bestmat p T2))"

definition bytes :: "int list \<Rightarrow> bool" where
  "bytes InitMat = (length InitMat = 32 \<and> list_all (\<lambda>b. 0 \<le> b \<and> b \<le> 255) InitMat)"

text \<open>The record of the header comment: A2X, X2A, X2S, S2X of basis 4.\<close>

definition record4 :: "int list" where
  "record4 =
     [0x98, 0xF3, 0xF2, 0x48, 0x09, 0x81, 0xA9, 0xFF,
      0x64, 0x78, 0x6E, 0x8C, 0x68, 0x29, 0xDE, 0x60,
      0x58, 0x2D, 0x9E, 0x0B, 0xDC, 0x04, 0x03, 0x24,
      0x8C, 0x79, 0x05, 0xEB, 0x12, 0x04, 0x51, 0x53]"

definition zeroed :: GateMat where
  "zeroed = \<lparr>mat = replicate 128 0, ind = replicate 256 0, n = 0, g = 0\<rparr>"

section \<open>Notions of the specification\<close>

text \<open>
  The population count of a 16-bit pattern, and of a column as stored (32 bits). A column
  is a 16-bit pattern when its upper half is clear; main builds such columns only.
\<close>

definition popcount :: "int \<Rightarrow> nat" where
  "popcount v = length (filter (bit v) [0..<16])"

definition colbits :: "32 word \<Rightarrow> nat" where
  "colbits w = length (filter (bit w) [0..<32])"

definition col16 :: "32 word \<Rightarrow> bool" where
  "col16 w = (uint w < 65536)"

text \<open>The savings the specification assigns to an overlap \<open>c\<close>.\<close>

definition savings :: "32 word \<Rightarrow> int" where
  "savings c = (if c = 0 then 0 else int (colbits c) - 1)"

text \<open>
  An initial state: 8 columns of 16 bits in arrays of the declared sizes. The bits still
  set in the \<open>n\<close> columns bound the depth of the search: \<open>weight\<close> counts them.
\<close>

definition initial :: "GateMat \<Rightarrow> bool" where
  "initial T = (sized T \<and> n T = 8 \<and> list_all col16 (take 8 (mat T)))"

definition weight :: "GateMat \<Rightarrow> nat" where
  "weight T = sum_list (map colbits (take (nat (n T)) (mat T)))"

definition searchable :: "GateMat \<Rightarrow> bool" where
  "searchable T =
     (sized T \<and> 8 \<le> n T \<and> n T + int (weight T div 2) \<le> 128 \<and>
      list_all col16 (take (nat (n T)) (mat T)))"

text \<open>
  The rule of step 1c: the pair \<open>(i, j)\<close> is skipped when \<open>i\<close> precedes \<open>io\<close>, \<open>j\<close> is
  neither \<open>io\<close> nor \<open>jo\<close>, and \<open>j\<close> precedes \<open>n - 1\<close>; \<open>old\<close> is \<open>(io, jo)\<close>.
\<close>

definition canonically_pruned :: "int \<Rightarrow> int \<times> int \<Rightarrow> int \<Rightarrow> int \<Rightarrow> bool" where
  "canonically_pruned n0 old i j = (i < fst old \<and> j \<noteq> fst old \<and> j \<noteq> snd old \<and> j < n0 - 1)"

text \<open>
  The Reconstructor of the specification, on a growing list of columns: one step computes
  the overlap of columns \<open>i\<close> and \<open>j\<close>, removes it from both and appends it. \<open>replay_gates\<close>
  follows the gate count through the same steps, as combine does (the savings of each
  overlap are taken off).
\<close>

definition overlap :: "32 word list \<Rightarrow> int \<times> int \<Rightarrow> 32 word" where
  "overlap cols p = cols ! nat (fst p) AND cols ! nat (snd p)"

definition factor :: "32 word list \<Rightarrow> int \<times> int \<Rightarrow> 32 word list" where
  "factor cols p =
     (let c = overlap cols p;
          cols1 = cols[nat (fst p) := cols ! nat (fst p) XOR c];
          cols2 = cols1[nat (snd p) := cols1 ! nat (snd p) XOR c]
      in cols2 @ [c])"

fun reconstruct :: "32 word list \<Rightarrow> (int \<times> int) list \<Rightarrow> 32 word list" where
  "reconstruct cols [] = cols"
| "reconstruct cols (p # ps) = reconstruct (factor cols p) ps"

fun replay_gates :: "32 word list \<Rightarrow> int \<Rightarrow> (int \<times> int) list \<Rightarrow> int" where
  "replay_gates cols gg [] = gg"
| "replay_gates cols gg (p # ps) =
     replay_gates (factor cols p) (gg - share_entry (uint (overlap cols p))) ps"

text \<open>
  The pairs an index array \<open>d\<close> holds in its entries \<open>2a, \<dots>, 2b - 1\<close>, and the invariant
  of the data model: a pair recorded when there were \<open>len\<close> columns has \<open>i < j < len\<close>.
\<close>

definition history :: "int list \<Rightarrow> nat \<Rightarrow> nat \<Rightarrow> (int \<times> int) list" where
  "history d a b = map (\<lambda>m. (d ! (2 * m), d ! (2 * m + 1))) [a..<b]"

fun valid_history :: "int \<Rightarrow> (int \<times> int) list \<Rightarrow> bool" where
  "valid_history len [] = True"
| "valid_history len (p # ps) =
     (0 \<le> fst p \<and> fst p < snd p \<and> snd p < len \<and> valid_history (len + 1) ps)"

text \<open>The pair recorded last in \<open>T\<close>, or \<open>(0, 0)\<close> when \<open>T\<close> has the 8 original columns only.\<close>

definition recent_pair :: "GateMat \<Rightarrow> int \<times> int" where
  "recent_pair T = (if n T = 8 then (0, 0) else last (history (ind T) 0 (nat (n T - 8))))"

text \<open>
  \<open>recorded T d a n' g'\<close>: the pairs of \<open>d\<close> from entry \<open>2a\<close> on lead from the columns and
  gate count of \<open>T\<close> to \<open>n'\<close> columns with gate count \<open>g'\<close>.
\<close>

definition recorded :: "GateMat \<Rightarrow> int list \<Rightarrow> nat \<Rightarrow> int \<Rightarrow> int \<Rightarrow> bool" where
  "recorded T d a n' g' =
     (valid_history (n T) (history d a (a + nat (n' - n T))) \<and>
      replay_gates (take (nat (n T)) (mat T)) (g T) (history d a (a + nat (n' - n T))) = g')"

text \<open>What a call of \<^verbatim>\<open>bestgates\<close> on \<open>T\<close> leaves untouched in \<open>T'\<close>.\<close>

definition same_prefix :: "GateMat \<Rightarrow> GateMat \<Rightarrow> bool" where
  "same_prefix T T' =
     (sized T' \<and> take (nat (n T)) (mat T') = take (nat (n T)) (mat T) \<and>
      take (nat (2 * (n T - 8))) (ind T') = take (nat (2 * (n T - 8))) (ind T))"

definition searched :: "GateMat \<Rightarrow> GateMat \<Rightarrow> bool" where
  "searched T T' =
     (same_prefix T T' \<and> n T \<le> n T' \<and> n T' \<le> n T + int (weight T div 2) \<and> g T' \<le> g T \<and>
      recorded T (ind T') (nat (n T - 8)) (n T') (g T'))"

text \<open>The invariant of the column loops of a call on \<open>T\<close>.\<close>

definition looping :: "GateMat \<Rightarrow> locals \<Rightarrow> bool" where
  "looping T L =
     (searched T (test L) \<and> length (indb L) = 256 \<and> gb L \<le> 1024 \<and>
      (gb L < 1024 \<longrightarrow>
         gb L \<le> g T \<and> n T \<le> nb L \<and> nb L \<le> n T + int (weight T div 2) \<and>
         recorded T (indb L) 0 (nb L) (gb L)))"

text \<open>
  The call of the search engine as section 4.3 of the specification describes it, on the
  state \<open>T\<close> it is entered with. The candidate pairs are all \<open>(i, j)\<close> with
  \<open>0 \<le> i < j < n\<close>, in the order of the two loops. A candidate is expanded when the
  savings of its overlap are not zero (step 1b) and it is not canonically pruned (step 1c)
  with respect to the pair recorded last; both are read off the state at entry.
\<close>

definition candidate_pairs :: "int \<Rightarrow> (int \<times> int) list" where
  "candidate_pairs n0 = concat (map (\<lambda>i. map (Pair i) [i + 1..n0 - 1]) [0..n0 - 2])"

definition expanded :: "GateMat \<Rightarrow> int \<times> int \<Rightarrow> bool" where
  "expanded T p =
     (savings (overlap (mat T) p) \<noteq> 0 \<and>
      \<not> canonically_pruned (n T) (recent_pair T) (fst p) (snd p))"

text \<open>
  Step 1d, the combine of the pair \<open>p\<close> in a call on \<open>T\<close>. \<open>W\<close> is the working state
  at that moment: it holds the columns and the history of \<open>T\<close> and, behind them, what
  earlier branches left. The overlap is taken out of the two columns and appended to the
  \<open>n\<close> columns, the pair is recorded behind the history, \<open>n\<close> grows by one and \<open>g\<close>
  shrinks by the savings of the overlap.
\<close>

definition combined :: "GateMat \<Rightarrow> int \<times> int \<Rightarrow> GateMat \<Rightarrow> GateMat" where
  "combined T p W =
     W\<lparr>mat := factor (take (nat (n T)) (mat T)) p @ drop (Suc (nat (n T))) (mat W),
       ind := (ind W)[2 * nat (n T - 8) := fst p, 2 * nat (n T - 8) + 1 := snd p],
       n := n T + 1,
       g := g T - savings (overlap (mat T) p)\<rparr>"

text \<open>
  Step 1d, the undo on the state \<open>R\<close> the recursive call returned: the two columns get
  the values they have in \<open>T\<close>; \<open>n\<close>, \<open>g\<close> and the history stay as the call left them.
\<close>

definition restored :: "GateMat \<Rightarrow> int \<times> int \<Rightarrow> GateMat \<Rightarrow> GateMat" where
  "restored T p R =
     R\<lparr>mat := (mat R)[nat (fst p) := mat T ! nat (fst p), nat (snd p) := mat T ! nat (snd p)]\<rparr>"

text \<open>
  Step 1e: when the gate count of \<open>R\<close> is below the best so far, it is remembered
  together with the column count of \<open>R\<close> and the history entries of \<open>R\<close> beyond the
  depth of \<open>T\<close>, which are kept at the front of \<open>indb\<close>.
\<close>

definition remembered :: "GateMat \<Rightarrow> GateMat \<Rightarrow> locals \<Rightarrow> locals" where
  "remembered T R L =
     (if g R < gb L
      then L\<lparr>test := R, gb := g R, nb := n R,
             indb := take (2 * nat (n R - n T)) (drop (2 * nat (n T - 8)) (ind R)) @
                     drop (2 * nat (n R - n T)) (indb L)\<rparr>
      else L\<lparr>test := R\<rparr>)"

text \<open>One expanded pair: combine, recursive call \<open>rec\<close>, undo, comparison.\<close>

definition visit ::
  "(GateMat \<Rightarrow> fault + GateMat) \<Rightarrow> GateMat \<Rightarrow> int \<times> int \<Rightarrow> locals \<Rightarrow> fault + locals" where
  "visit rec T p L =
     bnd (rec (combined T p (test L))) (\<lambda>R. Inr (remembered T (restored T p R) L))"

text \<open>
  Step 2: if a branch was remembered, its column count, gate count and history entries
  are written behind the history of \<open>T\<close>; otherwise the working state stays as it is.
\<close>

definition finish :: "GateMat \<Rightarrow> locals \<Rightarrow> GateMat" where
  "finish T L =
     (if gb L < 1024
      then (test L)\<lparr>ind := take (2 * nat (n T - 8)) (ind (test L)) @
                           take (2 * nat (nb L - n T)) (indb L) @
                           drop (2 * nat (nb L - 8)) (ind (test L)),
                    n := nb L, g := gb L\<rparr>
      else test L)"

definition engine_call :: "(GateMat \<Rightarrow> fault + GateMat) \<Rightarrow> GateMat \<Rightarrow> fault + GateMat" where
  "engine_call rec T =
     bnd (for_each (visit rec T) (filter (expanded T) (candidate_pairs (n T)))
            \<lparr>test = T, gb = 1024, nb = 0, indb = replicate 256 0\<rparr>)
       (\<lambda>L. Inr (finish T L))"

text \<open>Column \<open>i\<close> as lines 200--203 pack it from the matrices \<open>lo\<close> and \<open>hi\<close>.\<close>

definition packed :: "int list \<Rightarrow> int \<Rightarrow> int \<Rightarrow> int \<Rightarrow> 32 word" where
  "packed InitMat lo hi i =
     word_of_int (InitMat ! nat (8 * lo + i) OR push_bit 8 (InitMat ! nat (8 * hi + i)))"

definition packed_columns :: "int list \<Rightarrow> nat \<Rightarrow> 32 word list" where
  "packed_columns InitMat k =
     (if k = 0 then map (packed InitMat 0 3) [0, 1, 2, 3, 4, 5, 6, 7]
      else map (packed InitMat 2 1) [0, 1, 2, 3, 4, 5, 6, 7])"

text \<open>
  A small record: A2X has the two columns 3, 3 and six zero columns, the other matrices
  are zero. \<open>tiny\<close> is the state main hands to \<^verbatim>\<open>bestgates\<close> for its pair (A2X, S2X)
  when \<^verbatim>\<open>orig[0]\<close> and \<^verbatim>\<open>test\<close> were zero before; its gate count is 1 + 1 - 8.
\<close>

definition tiny_record :: "int list" where
  "tiny_record = [3, 3, 0, 0, 0, 0, 0, 0] @ replicate 24 0"

definition tiny :: GateMat where
  "tiny = \<lparr>mat = [3, 3] @ replicate 126 0, ind = replicate 256 0, n = 8, g = - 6\<rparr>"

text \<open>
  What the search leaves for \<open>tiny\<close>: the pair (0, 1) is recorded, column 8 holds the
  overlap, columns 0 and 1 hold their original values again.
\<close>

definition tiny_best :: GateMat where
  "tiny_best = \<lparr>mat = [3, 3, 0, 0, 0, 0, 0, 0, 3] @ replicate 119 0,
                 ind = [0, 1] @ replicate 254 0, n = 9, g = - 7\<rparr>"

text \<open>
  A state of 9 columns inside a search: what the combine of the pair (2, 3) makes of the
  columns 3, 3, 3, 3, 0, 0, 0, 0 with gate count 4 - 8. Its pair (0, 1) has the overlap 3,
  and the rule of step 1c prunes it.
\<close>

definition nine :: GateMat where
  "nine = \<lparr>mat = [3, 3, 0, 0, 0, 0, 0, 0, 3] @ replicate 119 0,
            ind = [2, 3] @ replicate 254 0, n = 9, g = - 5\<rparr>"


text \<open>The sum the specification gives for the baseline: popcount minus one per column.\<close>

definition claimed_baseline :: "32 word list \<Rightarrow> int" where
  "claimed_baseline cols = sum_list (map (\<lambda>c. int (colbits c) - 1) cols)"

definition sbox_ok :: "int \<Rightarrow> bool" where
  "sbox_ok x = (iSbox (Sbox x) = x \<and> Sbox (iSbox x) = x \<and>
                0 \<le> Sbox x \<and> Sbox x \<le> 255 \<and> 0 \<le> iSbox x \<and> iSbox x \<le> 255)"

section \<open>Sequencing, arrays and loops\<close>

lemma bnd_Inr [simp]: "bnd (Inr x) f = f x"
  by (simp add: bnd_def)

lemma bnd_Inl [simp]: "bnd (Inl e) f = Inl e"
  by (simp add: bnd_def)


lemma rd_in: "0 \<le> i \<Longrightarrow> i < int (length xs) \<Longrightarrow> rd xs i = Inr (xs ! nat i)"
  by (simp add: rd_def)

lemma wr_in: "0 \<le> i \<Longrightarrow> i < int (length xs) \<Longrightarrow> wr xs i v = Inr (xs[nat i := v])"
  by (simp add: wr_def)

text \<open>A loop keeps an invariant that each of its rounds keeps, and does not fault.\<close>

lemma for_each_invariant:
  assumes "I s"
    and "\<And>x s. x \<in> set xs \<Longrightarrow> I s \<Longrightarrow> \<exists>s'. f x s = Inr s' \<and> I s'"
  shows "\<exists>s'. for_each f xs s = Inr s' \<and> I s'"
  using assms
proof (induction xs arbitrary: s)
  case Nil
  then show ?case by simp
next
  case (Cons x xs)
  from Cons.prems obtain s1 where s1: "f x s = Inr s1" "I s1"
    by (meson list.set_intros(1))
  from Cons.IH [OF s1(2)] Cons.prems(2) obtain s' where "for_each f xs s1 = Inr s'" "I s'"
    by (meson list.set_intros(2))
  with s1 show ?case by simp
qed

section \<open>The table and the population count\<close>

lemma bitcount_filter:
  "j < 2 ^ m \<Longrightarrow> bitcount j k = k + int (length (filter (bit j) [0..<m]))"
proof (induction m arbitrary: j k)
  case 0
  then show ?case by simp
next
  case (Suc m)
  show ?case
  proof (cases "j = 0")
    case True
    then show ?thesis by simp
  next
    case False
    from Suc.prems have lt: "drop_bit 1 j < 2 ^ m"
      by (simp add: drop_bit_eq_div)
    have split: "[0..<Suc m] = 0 # map Suc [0..<m]"
      by (simp add: upt_conv_Cons map_Suc_upt del: upt_Suc)
    have tl: "filter (bit j) (map Suc [0..<m]) = map Suc (filter (bit (drop_bit 1 j)) [0..<m])"
      by (simp add: filter_map comp_def bit_Suc drop_bit_eq_div)
    have "bitcount j k = bitcount (drop_bit 1 j) (k + int (j AND 1))"
      using False by simp
    also have "\<dots> = k + int (j AND 1) + int (length (filter (bit (drop_bit 1 j)) [0..<m]))"
      by (rule Suc.IH [OF lt])
    also have "\<dots> = k + int (length (filter (bit j) [0..<Suc m]))"
      unfolding split
      by (cases "odd j") (simp_all add: tl bit_0 and_one_eq mod_2_eq_odd del: upt_Suc)
    finally show ?thesis .
  qed
qed

lemma share_entry_popcount:
  assumes "0 \<le> v" and "v < 65536"
  shows "share_entry v = (if v = 0 then 0 else int (popcount v) - 1)"
proof -
  have mask: "v AND 0xFFFF = v"
  proof -
    have "v AND mask 16 = take_bit 16 v" by (simp add: take_bit_eq_mask)
    moreover have "take_bit 16 v = v" using assms by (simp add: take_bit_int_eq_self)
    ultimately show ?thesis by (simp add: mask_eq_exp_minus_1)
  qed
  have lt: "nat v < 2 ^ 16" using assms by simp
  have bits: "filter (bit (nat v)) [0..<16] = filter (bit v) [0..<16]"
    using assms(1) by (intro filter_cong) (auto simp: bit_nat_iff)
  show ?thesis
    unfolding share_entry_def mask popcount_def
    using bitcount_filter [OF lt, of 0] bits by simp
qed

section \<open>The share table\<close>

text \<open>
  Claim C6. For every 16-bit pattern \<open>v\<close> the entry \<^verbatim>\<open>share[v]\<close> is the population
  count of \<open>v\<close> minus one when \<open>v\<close> is not zero, and 0 when \<open>v\<close> is zero; a pattern
  with exactly one bit set has the entry 0.
\<close>

theorem share_table:
  assumes "0 \<le> v" and "v < 65536"
  shows "share v = Inr (if v = 0 then 0 else int (popcount v) - 1) \<and>
         (popcount v = 1 \<longrightarrow> share v = Inr 0)"
proof -
  have pc0: "popcount 0 = 0" by (simp add: popcount_def)
  have "share v = Inr (share_entry v)" using assms by (simp add: share_def)
  with share_entry_popcount [OF assms] pc0 show ?thesis by auto
qed

theorem share_table_witness:
  "popcount 0x2804 = 3 \<and> share 0x2804 = Inr 2 \<and> popcount 0x0100 = 1 \<and> share 0x0100 = Inr 0"
proof -
  have a: "popcount 0x2804 = 3" by code_simp
  have b: "popcount 0x0100 = 1" by code_simp
  from a b share_table [of "0x2804"] share_table [of "0x0100"] show ?thesis by simp
qed

section \<open>Columns of 16 bits\<close>

lemma upto_0_7: "[0..7] = [0, 1, 2, 3, 4, 5, 6, 7 :: int]"
  by (simp add: upto_rec1)

lemma col16_bits: "col16 w \<longleftrightarrow> (\<forall>i. bit w i \<longrightarrow> i < 16)"
proof -
  have "uint w < 65536 \<longleftrightarrow> take_bit 16 (uint w) = uint w"
    by (simp add: take_bit_int_eq_self_iff)
  also have "\<dots> \<longleftrightarrow> (\<forall>i. bit (uint w) i \<longrightarrow> i < 16)"
    by (auto simp: bit_eq_iff bit_take_bit_iff)
  also have "\<dots> \<longleftrightarrow> (\<forall>i. bit w i \<longrightarrow> i < 16)"
  proof -
    have "bit w i \<Longrightarrow> i < 32" for i
      using bit_imp_le_length [of w i] by simp
    then show ?thesis by (auto simp: bit_uint_iff)
  qed
  finally show ?thesis by (simp add: col16_def)
qed

lemma col16_and: "col16 a \<Longrightarrow> col16 (a AND b)"
  by (simp add: col16_bits bit_and_iff)

lemma col16_xor: "col16 a \<Longrightarrow> col16 b \<Longrightarrow> col16 (a XOR b)"
  by (auto simp: col16_bits bit_xor_iff)

lemma col16_share: "col16 c \<Longrightarrow> share (uint c) = Inr (share_entry (uint c))"
  by (simp add: col16_def share_def)

lemma pack_bounds:
  fixes a b :: int
  assumes "0 \<le> a" "a \<le> 255" "0 \<le> b" "b \<le> 255"
  shows "0 \<le> a OR push_bit 8 b" and "a OR push_bit 8 b < 65536"
proof -
  show "0 \<le> a OR push_bit 8 b" using assms by simp
  have "a < 2 ^ 16" using assms by simp
  moreover have "push_bit 8 b < 2 ^ 16" using assms by (simp add: push_bit_eq_mult)
  ultimately have "a OR push_bit 8 b < 2 ^ 16"
    using assms by (intro OR_upper) simp_all
  then show "a OR push_bit 8 b < 65536" by simp
qed

lemma col16_pack:
  fixes a b :: int
  assumes "0 \<le> a" "a \<le> 255" "0 \<le> b" "b \<le> 255"
  shows "col16 (word_of_int (a OR push_bit 8 b))"
proof -
  from pack_bounds [OF assms] have "uint (word_of_int (a OR push_bit 8 b) :: 32 word) = a OR push_bit 8 b"
    by (simp add: uint_word_of_int take_bit_int_eq_self)
  with pack_bounds [OF assms] show ?thesis by (simp add: col16_def)
qed

text \<open>On a 16-bit column the two population counts agree.\<close>

lemma colbits_popcount: "col16 w \<Longrightarrow> int (colbits w) = int (popcount (uint w))"
proof -
  assume c: "col16 w"
  have split: "[0..<32] = [0..<16] @ [16..<32]"
    using upt_add_eq_append [of 0 16 16] by (simp del: upt_rec_numeral)
  have hi: "filter (bit w) [16..<32] = []"
    using c by (auto simp: col16_bits filter_empty_conv simp del: upt_rec_numeral)
  have lo: "filter (bit w) [0..<16] = filter (bit (uint w)) [0..<16]"
    by (intro filter_cong) (auto simp: bit_uint_iff simp del: upt_rec_numeral)
  show ?thesis
    unfolding colbits_def popcount_def split by (simp add: hi lo del: upt_rec_numeral)
qed

lemma share_entry_savings: "col16 c \<Longrightarrow> share_entry (uint c) = savings c"
proof -
  assume c: "col16 c"
  then have "share_entry (uint c) = (if uint c = 0 then 0 else int (popcount (uint c)) - 1)"
    by (intro share_entry_popcount) (simp_all add: col16_def)
  moreover have "uint c = 0 \<longleftrightarrow> c = 0" by (simp add: uint_0_iff)
  ultimately show ?thesis using colbits_popcount [OF c] by (simp add: savings_def)
qed

section \<open>The matrices main builds\<close>

lemma take_8: "8 \<le> length xs \<Longrightarrow> take 8 xs = [xs ! 0, xs ! 1, xs ! 2, xs ! 3, xs ! 4, xs ! 5, xs ! 6, xs ! 7]"
proof -
  assume len: "8 \<le> length xs"
  have "take (Suc k) xs = take k xs @ [xs ! k]" if "k < 8" for k
    using that len by (simp add: take_Suc_conv_app_nth)
  then show ?thesis by (simp add: numeral_eq_Suc)
qed

lemma update_8:
  assumes "8 \<le> length xs"
  shows "xs[0 := a0, Suc 0 := a1, 2 := a2, 3 := a3, 4 := a4, 5 := a5, 6 := a6, 7 := a7] =
         [a0, a1, a2, a3, a4, a5, a6, a7] @ drop 8 xs"
proof -
  obtain ys where xs: "xs = ys @ drop 8 xs" and ys: "ys = [xs ! 0, xs ! 1, xs ! 2, xs ! 3, xs ! 4, xs ! 5, xs ! 6, xs ! 7]"
    using take_8 [OF assms] by (metis append_take_drop_id)
  have "(ys @ zs)[0 := a0, Suc 0 := a1, 2 := a2, 3 := a3, 4 := a4, 5 := a5, 6 := a6, 7 := a7] =
        [a0, a1, a2, a3, a4, a5, a6, a7] @ zs" for zs
    unfolding ys by (simp add: numeral_eq_Suc)
  from this [of "drop 8 xs"] xs show ?thesis by simp
qed

lemma load_orig_eq:
  assumes "length im = 32" and "length (mat p) = 128"
  shows "load_orig im k p = Inr (p\<lparr>mat := packed_columns im k @ drop 8 (mat p)\<rparr>)"
proof -
  have "8 \<le> length (mat p)" using assms by simp
  note upd = update_8 [OF this]
  show ?thesis
    using assms
    by (simp add: load_orig_def load_column_def upto_0_7 rd_in wr_in packed_columns_def packed_def upd)
qed

lemma init_counts_eq:
  assumes "list_all col16 [c0, c1, c2, c3, c4, c5, c6, c7]"
    and "length rest = 120"
  shows "init_counts (p\<lparr>mat := [c0, c1, c2, c3, c4, c5, c6, c7] @ rest\<rparr>) =
         Inr (p\<lparr>mat := [c0, c1, c2, c3, c4, c5, c6, c7] @ rest, n := 8,
                g := sum_list (map savings [c0, c1, c2, c3, c4, c5, c6, c7]) - 8\<rparr>)"
  using assms
  by (simp add: init_counts_def add_share_def upto_0_7 rd_in col16_share share_entry_savings)

lemma packed_col16:
  assumes "bytes im" and "0 \<le> a" "a < 32" "0 \<le> b" "b < 32"
  shows "col16 (word_of_int (im ! nat a OR push_bit 8 (im ! nat b)))"
proof -
  have "0 \<le> im ! k \<and> im ! k \<le> 255" if "k < 32" for k
    using assms(1) that by (simp add: bytes_def list_all_length)
  from this [of "nat a"] this [of "nat b"] assms(2-) show ?thesis
    by (intro col16_pack) simp_all
qed

lemma col16_packed:
  assumes "bytes im" and "0 \<le> lo" "lo < 4" "0 \<le> hi" "hi < 4" "0 \<le> i" "i < 8"
  shows "col16 (packed im lo hi i)"
  unfolding packed_def using assms by (intro packed_col16) simp_all

lemma packed_columns_col16: "bytes im \<Longrightarrow> list_all col16 (packed_columns im k)"
  by (simp add: packed_columns_def col16_packed)

lemma length_packed_columns: "length (packed_columns im k) = 8"
  by (simp add: packed_columns_def)

lemma make_orig_eq:
  assumes "bytes im" and "sized p"
  shows "make_orig im k p =
         Inr (p\<lparr>mat := packed_columns im k @ drop 8 (mat p), n := 8,
                g := sum_list (map savings (packed_columns im k)) - 8\<rparr>)"
proof -
  from assms have len: "length im = 32" "length (mat p) = 128"
    by (simp_all add: bytes_def sized_def)
  obtain c0 c1 c2 c3 c4 c5 c6 c7 where cols: "packed_columns im k = [c0, c1, c2, c3, c4, c5, c6, c7]"
    by (cases "k = 0") (simp_all add: packed_columns_def)
  have c16: "list_all col16 [c0, c1, c2, c3, c4, c5, c6, c7]"
    using packed_columns_col16 [OF assms(1), of k] by (simp add: cols)
  have rest: "length (drop 8 (mat p)) = 120" using len by simp
  show ?thesis
    unfolding make_orig_def load_orig_eq [OF len] cols bnd_Inr
    by (rule init_counts_eq [OF c16 rest])
qed

section \<open>The baseline gate count\<close>

lemma bytes_record4: "bytes record4"
  by (simp add: bytes_def record4_def)

lemma sized_zeroed: "sized zeroed"
  by (simp add: sized_def zeroed_def)

lemma columns_record4_0:
  "packed_columns record4 0 = [0x8C98, 0x79F3, 0x05F2, 0xEB48, 0x1209, 0x0481, 0x51A9, 0x53FF]"
  by (simp add: packed_columns_def packed_def record4_def)

lemma columns_record4_1:
  "packed_columns record4 1 = [0x6458, 0x782D, 0x6E9E, 0x8C0B, 0x68DC, 0x2904, 0xDE03, 0x6024]"
  by (simp add: packed_columns_def packed_def record4_def)

lemma colbits_record4_0:
  "map colbits [0x8C98, 0x79F3, 0x05F2, 0xEB48, 0x1209, 0x0481, 0x51A9, 0x53FF] =
   [6, 11, 7, 8, 4, 3, 7, 12]"
  by code_simp

lemma colbits_record4_1:
  "map colbits [0x6458, 0x782D, 0x6E9E, 0x8C0B, 0x68DC, 0x2904, 0xDE03, 0x6024] =
   [6, 8, 10, 6, 8, 4, 8, 4]"
  by code_simp

lemma savings_nonzero:
  "0 \<notin> set cols \<Longrightarrow> sum_list (map savings cols) = claimed_baseline cols"
  unfolding claimed_baseline_def
  by (rule arg_cong [where f = sum_list], rule map_cong) (auto simp: savings_def)

text \<open>
  Claim C2, as the code has it. The gate count main stores before the search is the sum
  of the savings of the 8 packed columns, minus 8: a column that is not zero counts its
  population count minus one, a zero column counts 0. When no column is zero this is the
  sum over the columns of (popcount - 1), minus 8.
\<close>

theorem baseline_gates:
  assumes "bytes im" and "sized p"
  shows "\<exists>p'. make_orig im k p = Inr p' \<and> n p' = 8 \<and> take 8 (mat p') = packed_columns im k \<and>
           g p' = sum_list (map savings (take 8 (mat p'))) - 8 \<and>
           (0 \<notin> set (take 8 (mat p')) \<longrightarrow> g p' = claimed_baseline (take 8 (mat p')) - 8)"
proof -
  let ?p = "p\<lparr>mat := packed_columns im k @ drop 8 (mat p), n := 8,
               g := sum_list (map savings (packed_columns im k)) - 8\<rparr>"
  have t: "take 8 (mat ?p) = packed_columns im k"
    by (simp add: length_packed_columns)
  have "make_orig im k p = Inr ?p" by (rule make_orig_eq [OF assms])
  moreover have "n ?p = 8" by simp
  moreover have "g ?p = sum_list (map savings (take 8 (mat ?p))) - 8"
    unfolding t by simp
  moreover have "0 \<notin> set (take 8 (mat ?p)) \<longrightarrow> g ?p = claimed_baseline (take 8 (mat ?p)) - 8"
    unfolding t using savings_nonzero [of "packed_columns im k"] by simp
  ultimately show ?thesis using t by blast
qed

theorem baseline_gates_witness:
  "bytes record4 \<and> sized zeroed \<and>
   (\<exists>p'. make_orig record4 1 zeroed = Inr p' \<and> n p' = 8 \<and>
      g p' = sum_list (map savings (take 8 (mat p'))) - 8)"
  using baseline_gates [OF bytes_record4 sized_zeroed, of 1] bytes_record4 sized_zeroed by blast

text \<open>
  The claim as written fails on the record of the header comment: main stores 42 for the
  pair (A2X, S2X), the sum of (popcount - 1) over its 8 columns is 50.
\<close>

theorem baseline_gates_counterexample:
  "\<exists>p'. make_orig record4 0 zeroed = Inr p' \<and> g p' = 42 \<and>
     claimed_baseline (take 8 (mat p')) = 50"
proof -
  let ?cols = "[0x8C98, 0x79F3, 0x05F2, 0xEB48, 0x1209, 0x0481, 0x51A9, 0x53FF] :: 32 word list"
  have cb: "claimed_baseline ?cols = 50"
    unfolding claimed_baseline_def
    using colbits_record4_0 by simp
  have "0 \<notin> set ?cols" by simp
  then have sv: "sum_list (map savings ?cols) = 50"
    using savings_nonzero [of ?cols] cb by simp
  let ?p = "zeroed\<lparr>mat := ?cols @ drop 8 (mat zeroed), n := 8,
               g := sum_list (map savings ?cols) - 8\<rparr>"
  have "make_orig record4 0 zeroed = Inr ?p"
    using make_orig_eq [OF bytes_record4 sized_zeroed, of 0] by (simp only: columns_record4_0)
  moreover have "g ?p = 42" using sv by simp
  moreover have "claimed_baseline (take 8 (mat ?p)) = 50" using cb by simp
  ultimately show ?thesis by blast
qed

section \<open>One pair of columns\<close>

lemma combine_in:
  assumes "sized T" "8 \<le> n0" "n0 < 128" "0 \<le> i" "i < n0" "0 \<le> j" "j < n0"
  shows "combine n0 g0 i j c t T =
         Inr (T\<lparr>mat := (mat T)[nat i := mat T ! nat i XOR c,
                               nat j := (mat T)[nat i := mat T ! nat i XOR c] ! nat j XOR c,
                               nat n0 := c],
                ind := (ind T)[nat (2 * (n0 - 8)) := i, nat (2 * (n0 - 8) + 1) := j],
                n := n0 + 1, g := g0 - t\<rparr>)"
  using assms by (simp add: combine_def Let_def sized_def rd_in wr_in)

lemma entry_pair_recent:
  assumes "sized T" "8 \<le> n T" "n T \<le> 128"
  shows "entry_pair T = Inr (recent_pair T)"
proof (cases "n T = 8")
  case True
  then show ?thesis by (simp add: entry_pair_def recent_pair_def)
next
  case False
  define m where "m = nat (n T - 9)"
  from False assms have m: "nat (n T - 8) = Suc m" "n T = int m + 9"
    by (simp_all add: m_def)
  have "last (history (ind T) 0 (Suc m)) = (ind T ! (2 * m), ind T ! (2 * m + 1))"
    by (simp add: history_def)
  moreover have "nat (2 * (n T - 8) - 2) = 2 * m" "nat (2 * (n T - 8) - 1) = 2 * m + 1"
    using m(2) by simp_all
  ultimately show ?thesis
    using assms False m
    by (simp add: entry_pair_def recent_pair_def Let_def rd_in sized_def)
qed

lemma sized_tiny: "sized tiny"
  by (simp add: sized_def tiny_def)


lemma savings_3: "savings 3 = 1" "savings 0 = 0"
proof -
  have "colbits 3 = 2" by code_simp
  then show "savings 3 = 1" by (simp add: savings_def)
  show "savings 0 = 0" by (simp add: savings_def)
qed

section \<open>Factoring an overlap out of two columns\<close>

lemma length_filter_split:
  assumes "\<And>x. x \<in> set xs \<Longrightarrow> (R x \<longleftrightarrow> P x \<or> Q x) \<and> \<not> (P x \<and> Q x)"
  shows "length (filter P xs) + length (filter Q xs) = length (filter R xs)"
  using assms by (induction xs) auto

lemma colbits_split: "colbits (a XOR (a AND b)) + colbits (a AND b) = colbits a"
  unfolding colbits_def
  by (rule length_filter_split) (auto simp: bit_xor_iff bit_and_iff)

lemma colbits_split': "colbits (b XOR (a AND b)) + colbits (a AND b) = colbits b"
  using colbits_split [of b a] by (simp add: and.commute)

lemma colbits_zero: "colbits c = 0 \<longleftrightarrow> c = 0"
proof
  assume z: "colbits c = 0"
  have "\<not> bit c i" for i
  proof (cases "i < 32")
    case True
    with z show ?thesis by (auto simp: colbits_def filter_empty_conv simp del: upt_rec_numeral)
  next
    case False
    then show ?thesis using bit_imp_le_length [of c i] by auto
  qed
  then show "c = 0" by (simp add: bit_eq_iff)
next
  assume "c = 0"
  then show "colbits c = 0" by (simp add: colbits_def del: upt_rec_numeral)
qed

lemma savings_nonneg: "0 \<le> savings c"
  using colbits_zero [of c] by (cases "colbits c") (auto simp: savings_def)

lemma savings_two_bits: "savings c \<noteq> 0 \<Longrightarrow> 2 \<le> colbits c"
  using colbits_zero [of c] by (cases "c = 0") (auto simp: savings_def)

lemma length_factor [simp]: "length (factor cols p) = Suc (length cols)"
  by (simp add: factor_def Let_def)

lemma sum_list_map_update:
  fixes f :: "'a \<Rightarrow> nat"
  assumes "k < length xs"
  shows "sum_list (map f (xs[k := v])) + f (xs ! k) = sum_list (map f xs) + f v"
  using assms
proof (induction xs arbitrary: k)
  case Nil
  then show ?case by simp
next
  case (Cons x xs)
  then show ?case by (cases k) (auto simp: algebra_simps)
qed

text \<open>A step of the Reconstructor removes the bits of the overlap once.\<close>

lemma factor_weight:
  assumes "i < length cols" "j < length cols" "i \<noteq> j"
  shows "sum_list (map colbits (factor cols (int i, int j))) + colbits (overlap cols (int i, int j)) =
         sum_list (map colbits cols)"
proof -
  let ?c = "cols ! i AND cols ! j"
  let ?c1 = "cols[i := cols ! i XOR ?c]"
  let ?c2 = "?c1[j := cols ! j XOR ?c]"
  have f: "factor cols (int i, int j) = ?c2 @ [?c]"
    using assms by (simp add: factor_def overlap_def Let_def)
  have s1: "sum_list (map colbits ?c1) + colbits (cols ! i) =
            sum_list (map colbits cols) + colbits (cols ! i XOR ?c)"
    using assms by (intro sum_list_map_update)
  have s2: "sum_list (map colbits ?c2) + colbits (cols ! j) =
            sum_list (map colbits ?c1) + colbits (cols ! j XOR ?c)"
    using sum_list_map_update [of j ?c1 colbits "cols ! j XOR ?c"] assms by simp
  from s1 s2 colbits_split [of "cols ! i" "cols ! j"] colbits_split' [of "cols ! j" "cols ! i"]
  show ?thesis unfolding f overlap_def by simp
qed

lemma factor_col16:
  assumes "list_all col16 cols" "i < length cols" "j < length cols"
  shows "list_all col16 (factor cols (int i, int j))"
proof -
  from assms have ci: "col16 (cols ! i)" and cj: "col16 (cols ! j)"
    by (simp_all add: list_all_length)
  then have c: "col16 (cols ! i AND cols ! j)" by (simp add: col16_and)
  have "list_all col16 (cols[i := cols ! i XOR (cols ! i AND cols ! j)])"
    using assms ci c by (auto simp: list_all_length nth_list_update col16_xor)
  then have "list_all col16 (cols[i := cols ! i XOR (cols ! i AND cols ! j),
      j := cols[i := cols ! i XOR (cols ! i AND cols ! j)] ! j XOR (cols ! i AND cols ! j)])"
    using assms c by (auto simp: list_all_length nth_list_update col16_xor)
  with c show ?thesis by (simp add: factor_def overlap_def Let_def)
qed

section \<open>Recorded pairs\<close>

lemma history_empty [simp]: "history d a a = []"
  by (simp add: history_def)

lemma history_Cons:
  "0 < m \<Longrightarrow> history d a (a + m) = (d ! (2 * a), d ! (2 * a + 1)) # history d (Suc a) (Suc a + (m - 1))"
  by (cases m) (simp_all add: history_def upt_conv_Cons del: upt_Suc)

lemma history_shift:
  assumes "\<And>k. k < 2 * m \<Longrightarrow> d' ! (2 * a' + k) = d ! (2 * a + k)"
  shows "history d' a' (a' + m) = history d a (a + m)"
proof -
  have l: "[a'..<a' + m] = map (\<lambda>x. x + a') [0..<m]" and r: "[a..<a + m] = map (\<lambda>x. x + a) [0..<m]"
    by (simp_all add: map_add_upt add.commute)
  have "d' ! (2 * (x + a')) = d ! (2 * (x + a)) \<and> d' ! (2 * (x + a') + 1) = d ! (2 * (x + a) + 1)"
    if "x < m" for x
    using assms [of "2 * x"] assms [of "2 * x + 1"] that by (simp add: algebra_simps)
  then show ?thesis
    unfolding history_def l r by (simp add: comp_def)
qed

section \<open>Copies\<close>

lemma memcpy_eq_Inr:
  assumes "memcpy dst d src s len = Inr r"
  shows "length r = length dst"
    and "\<And>k. k < nat len \<Longrightarrow> r ! (nat d + k) = src ! (nat s + k)"
    and "\<And>k. k < nat d \<Longrightarrow> r ! k = dst ! k"
    and "take (nat d) r = take (nat d) dst"
proof -
  from assms have rng: "0 \<le> len" "0 \<le> d" "d + len \<le> int (length dst)" "0 \<le> s" "s + len \<le> int (length src)"
    and r0: "r = take (nat d) dst @ take (nat len) (drop (nat s) src) @ drop (nat (d + len)) dst"
    by (auto simp: memcpy_def split: if_splits)
  define D S K where "D = nat d" and "S = nat s" and "K = nat len"
  from rng have le: "D + K \<le> length dst" "S + K \<le> length src" and sum: "nat (d + len) = D + K"
    by (simp_all add: D_def S_def K_def nat_add_distrib)
  have r: "r = take D dst @ take K (drop S src) @ drop (D + K) dst"
    using r0 unfolding sum D_def S_def K_def .
  have lD: "length (take D dst) = D" and lK: "length (take K (drop S src)) = K"
    using le by simp_all
  show "length r = length dst" unfolding r using le by simp
  show "r ! (nat d + k) = src ! (nat s + k)" if "k < nat len" for k
  proof -
    from that have k: "k < K" by (simp add: K_def)
    have "r ! (D + k) = (take K (drop S src) @ drop (D + K) dst) ! k"
      unfolding r using lD by (simp add: nth_append)
    also have "\<dots> = take K (drop S src) ! k"
      using k lK by (simp add: nth_append)
    also have "\<dots> = src ! (S + k)"
      using k le by simp
    finally show ?thesis by (simp add: D_def S_def)
  qed
  show "r ! k = dst ! k" if "k < nat d" for k
    using that lD unfolding r D_def by (simp add: nth_append)
  show "take (nat d) r = take (nat d) dst"
    unfolding r using lD by (simp add: D_def)
qed

section \<open>One expansion keeps the invariant of the loops\<close>

lemma factor_sum_ge: "colbits (overlap cols p) \<le> sum_list (map colbits (factor cols p))"
  by (simp add: factor_def Let_def)

lemma factor_nth:
  assumes "i < length cols" "j < length cols" "i \<noteq> j" "k < length cols" "k \<noteq> i" "k \<noteq> j"
  shows "factor cols (int i, int j) ! k = cols ! k"
  using assms by (simp add: factor_def Let_def nth_append)

text \<open>The columns after a combine are a step of the Reconstructor on the columns before.\<close>

lemma take_combined:
  assumes "length M = 128" "N < 128" "I < N" "J < N" "I \<noteq> J" "c = M ! I AND M ! J"
  shows "take (Suc N) (M[I := M ! I XOR c, J := M[I := M ! I XOR c] ! J XOR c, N := c]) =
         factor (take N M) (int I, int J)"
proof (rule nth_equalityI)
  show "length (take (Suc N) (M[I := M ! I XOR c, J := M[I := M ! I XOR c] ! J XOR c, N := c])) =
        length (factor (take N M) (int I, int J))"
    using assms by simp
next
  fix k
  assume "k < length (take (Suc N) (M[I := M ! I XOR c, J := M[I := M ! I XOR c] ! J XOR c, N := c]))"
  with assms have k: "k < Suc N" by simp
  show "take (Suc N) (M[I := M ! I XOR c, J := M[I := M ! I XOR c] ! J XOR c, N := c]) ! k =
        factor (take N M) (int I, int J) ! k"
    using assms k
    by (auto simp: factor_def overlap_def Let_def nth_append nth_list_update less_Suc_eq)
qed

lemma take_undone:
  assumes "length M' = 128" "N < 128" "I < N" "J < N" "I \<noteq> J"
    and "take (Suc N) M' = factor cols (int I, int J)" and "length cols = N"
  shows "take N (M'[I := cols ! I, J := cols ! J]) = cols"
proof (rule nth_equalityI)
  show "length (take N (M'[I := cols ! I, J := cols ! J])) = length cols"
    using assms by simp
next
  fix k
  assume "k < length (take N (M'[I := cols ! I, J := cols ! J]))"
  with assms have k: "k < N" by simp
  have "M' ! k = factor cols (int I, int J) ! k"
    using k assms(6) by (metis less_Suc_eq nth_take)
  then show "take N (M'[I := cols ! I, J := cols ! J]) ! k = cols ! k"
    using assms k by (auto simp: nth_list_update factor_nth)
qed

lemma searchable_facts:
  assumes "searchable T"
  shows "n T = int (nat (n T))" and "nat (n T) = nat (n T - 8) + 8"
    and "nat (2 * (n T - 8)) = 2 * nat (n T - 8)" and "nat (2 * (n T - 8) + 1) = 2 * nat (n T - 8) + 1"
    and "length (mat T) = 128" and "length (ind T) = 256"
    and "nat (n T) + weight T div 2 \<le> 128"
    and "list_all col16 (take (nat (n T)) (mat T))" and "length (take (nat (n T)) (mat T)) = nat (n T)"
    and "8 \<le> n T"
proof -
  from assms show s: "length (mat T) = 128" "length (ind T) = 256" "8 \<le> n T"
    "list_all col16 (take (nat (n T)) (mat T))"
    by (simp_all add: searchable_def sized_def)
  from assms have cap: "n T + int (weight T div 2) \<le> 128"
    by (simp add: searchable_def)
  from s(3) show "n T = int (nat (n T))" "nat (n T) = nat (n T - 8) + 8"
    "nat (2 * (n T - 8)) = 2 * nat (n T - 8)" "nat (2 * (n T - 8) + 1) = 2 * nat (n T - 8) + 1"
    by simp_all
  from s(3) cap show "nat (n T) + weight T div 2 \<le> 128" by linarith
  from s(1,3) cap show "length (take (nat (n T)) (mat T)) = nat (n T)" by simp
qed

text \<open>
  A combine of two columns whose overlap saves something stays inside the arrays, and the
  state it makes can be searched with less weight.
\<close>

lemma combine_searchable:
  assumes sT: "searchable T"
    and sL: "sized TL" "take (nat (n T)) (mat TL) = take (nat (n T)) (mat T)"
    and ij: "0 \<le> i" "i < j" "j < n T"
    and sv: "savings (mat T ! nat i AND mat T ! nat j) \<noteq> 0"
  shows "\<exists>T1. combine (n T) (g T) i j (mat T ! nat i AND mat T ! nat j)
                 (savings (mat T ! nat i AND mat T ! nat j)) TL = Inr T1 \<and>
           searchable T1 \<and> n T1 = n T + 1 \<and>
           g T1 = g T - savings (mat T ! nat i AND mat T ! nat j) \<and>
           weight T1 + 2 \<le> weight T \<and>
           n T1 + int (weight T1 div 2) \<le> n T + int (weight T div 2) \<and>
           take (Suc (nat (n T))) (mat T1) = factor (take (nat (n T)) (mat T)) (i, j) \<and>
           ind T1 = (ind TL)[2 * nat (n T - 8) := i, 2 * nat (n T - 8) + 1 := j]"
proof -
  define N a where "N = nat (n T)" and "a = nat (n T - 8)"
  note sf = searchable_facts [OF sT, folded N_def a_def]
  note nT = sf(1) and Na = sf(2) and N = sf(3,4) and lT = sf(5,6) and cap = sf(7)
    and c16 = sf(8) and ltk = sf(9) and n8 = sf(10)
  define I J where "I = nat i" and "J = nat j"
  from ij nT have IJ: "i = int I" "j = int J" "I < J" "J < N" "I < N" "I \<noteq> J"
    by (simp_all add: I_def J_def)
  define cols where "cols = take N (mat T)"
  define M where "M = mat TL"
  define c where "c = mat T ! I AND mat T ! J"
  have W: "weight T = sum_list (map colbits cols)"
    by (simp add: weight_def cols_def N_def)
  have lc: "length cols = N" using ltk by (simp add: cols_def)
  have colsM: "take N M = cols" using sL(2) by (simp add: M_def cols_def N_def)
  have MI: "M ! I = cols ! I" "M ! J = cols ! J" "mat T ! I = cols ! I" "mat T ! J = cols ! J"
    using IJ nth_take [of I N M] nth_take [of J N M] colsM by (simp_all add: cols_def)
  have cM: "c = M ! I AND M ! J" by (simp add: c_def MI)
  have ov: "overlap cols (int I, int J) = c" by (simp add: overlap_def c_def MI)
  have two: "2 \<le> colbits c" using sv by (intro savings_two_bits) (simp add: c_def I_def J_def)
  have fw: "sum_list (map colbits (factor cols (int I, int J))) + colbits c = weight T"
    using factor_weight [of I cols J] IJ lc ov W by simp
  have "colbits c \<le> sum_list (map colbits (factor cols (int I, int J)))"
    using factor_sum_ge [of cols "(int I, int J)"] ov by simp
  with fw two have w4: "4 \<le> weight T" by simp
  with cap have N126: "N \<le> 126" by simp
  have lM: "length M = 128" "length (ind TL) = 256" using sL(1) by (simp_all add: M_def sized_def)
  let ?m = "M[I := M ! I XOR c, J := M[I := M ! I XOR c] ! J XOR c, N := c]"
  let ?T1 = "TL\<lparr>mat := ?m, ind := (ind TL)[2 * a := i, 2 * a + 1 := j], n := n T + 1,
                 g := g T - savings c\<rparr>"
  have rng: "8 \<le> n T" "n T < 128" "i < n T" "0 \<le> j"
    using nT n8 N126 ij by simp_all
  have comb: "combine (n T) (g T) i j c (savings c) TL = Inr ?T1"
    using combine_in [OF sL(1) rng(1,2) ij(1) rng(3,4) ij(3), of "g T" c "savings c"]
    unfolding N N_def [symmetric] a_def [symmetric] I_def [symmetric] J_def [symmetric] M_def [symmetric] .
  have tk: "take (Suc N) ?m = factor cols (int I, int J)"
    using take_combined [of M N I J c] lM N126 IJ cM colsM by simp
  have n1: "nat (n ?T1) = Suc N" using nT by simp
  have w1: "weight ?T1 = sum_list (map colbits (factor cols (int I, int J)))"
    unfolding weight_def n1 by (simp add: tk)
  from w1 fw two have wlt: "weight ?T1 + 2 \<le> weight T" by simp
  then have half: "Suc (weight ?T1 div 2) \<le> weight T div 2" by simp
  have c16': "list_all col16 (factor cols (int I, int J))"
    using factor_col16 [of cols I J] IJ lc c16 by (simp add: cols_def)
  have "searchable ?T1"
    unfolding searchable_def n1
  proof (intro conjI)
    show "sized ?T1" using lM by (simp add: sized_def M_def)
    show "8 \<le> n ?T1" using rng by simp
    show "n ?T1 + int (weight ?T1 div 2) \<le> 128" using half cap nT by simp
    show "list_all col16 (take (Suc N) (mat ?T1))" using c16' by (simp add: tk)
  qed
  moreover have "n ?T1 + int (weight ?T1 div 2) \<le> n T + int (weight T div 2)"
    using half by simp
  ultimately have "combine (n T) (g T) i j c (savings c) TL = Inr ?T1 \<and>
           searchable ?T1 \<and> n ?T1 = n T + 1 \<and> g ?T1 = g T - savings c \<and>
           weight ?T1 + 2 \<le> weight T \<and>
           n ?T1 + int (weight ?T1 div 2) \<le> n T + int (weight T div 2) \<and>
           take (Suc N) (mat ?T1) = factor cols (i, j) \<and>
           ind ?T1 = (ind TL)[2 * a := i, 2 * a + 1 := j]"
    using comb wlt tk IJ(1,2) by simp
  then show ?thesis
    unfolding c_def I_def J_def cols_def N_def a_def by blast
qed

text \<open>
  After the recursive call on the combined state, writing the two saved columns back gives
  a state that continues the one the call started from.
\<close>

lemma undo_searched:
  assumes sT: "searchable T"
    and ij: "0 \<le> i" "i < j" "j < n T"
    and T1: "n T1 = n T + 1" "g T1 = g T - savings (mat T ! nat i AND mat T ! nat j)"
      "n T1 + int (weight T1 div 2) \<le> n T + int (weight T div 2)"
      "take (Suc (nat (n T))) (mat T1) = factor (take (nat (n T)) (mat T)) (i, j)"
      "ind T1 = dL[2 * nat (n T - 8) := i, 2 * nat (n T - 8) + 1 := j]"
    and dL: "length dL = 256" "take (2 * nat (n T - 8)) dL = take (2 * nat (n T - 8)) (ind T)"
    and T2: "searched T1 T2"
  shows "\<exists>T3. undo i j (mat T ! nat i) (mat T ! nat j) T2 = Inr T3 \<and> searched T T3 \<and>
           n T < n T3 \<and> g T3 \<le> g T - savings (mat T ! nat i AND mat T ! nat j)"
proof -
  define N a where "N = nat (n T)" and "a = nat (n T - 8)"
  note sf = searchable_facts [OF sT, folded N_def a_def]
  note nT = sf(1) and Na = sf(2) and N = sf(3,4) and lT = sf(5,6) and cap = sf(7)
    and c16 = sf(8) and ltk = sf(9) and n8 = sf(10)
  define I J where "I = nat i" and "J = nat j"
  from ij nT have IJ: "i = int I" "j = int J" "I < J" "J < N" "I < N" "I \<noteq> J"
    by (simp_all add: I_def J_def)
  define cols where "cols = take N (mat T)"
  define c where "c = mat T ! I AND mat T ! J"
  have lc: "length cols = N" using ltk by (simp add: cols_def)
  have cI: "mat T ! I = cols ! I" "mat T ! J = cols ! J"
    using IJ by (simp_all add: cols_def)
  have ov: "overlap cols (i, j) = c" by (simp add: overlap_def c_def cI IJ)
  have cc16: "col16 c"
    using c16 IJ lc unfolding c_def cI by (intro col16_and) (simp add: list_all_length cols_def)
  note T1' = T1 [folded N_def a_def I_def J_def c_def cols_def]
  have n1: "nat (n T1) = Suc N" "nat (n T1 - 8) = Suc a" "nat (2 * (n T1 - 8)) = 2 * a + 2"
    using T1'(1) nT n8 by (simp_all add: a_def)
  from T2 have sz2: "length (mat T2) = 128" "length (ind T2) = 256"
    and m2: "take (Suc N) (mat T2) = factor cols (i, j)"
    and d2: "take (2 * a + 2) (ind T2) = take (2 * a + 2) (ind T1)"
    and nn: "n T1 \<le> n T2" "n T2 \<le> n T1 + int (weight T1 div 2)"
    and gg: "g T2 \<le> g T1"
    and rec: "recorded T1 (ind T2) (Suc a) (n T2) (g T2)"
    unfolding searched_def same_prefix_def sized_def n1 by (simp_all add: T1'(4))
  from cap have N128: "N \<le> 128" by simp
  have "n T2 \<le> 128" using nn T1'(1,3) nT cap by linarith
  from IJ N128 have I128: "I < 128" "J < 128" by simp_all
  let ?T3 = "T2\<lparr>mat := (mat T2)[I := cols ! I, J := cols ! J]\<rparr>"
  have un: "undo i j (mat T ! I) (mat T ! J) T2 = Inr ?T3"
    using sz2 I128 IJ(1,2) by (simp add: undo_def wr_in cI)
  have a2: "2 * a + 1 < 256" using Na N128 by simp
  have N127: "N < 128"
    using arg_cong [OF m2, of length] sz2 lc by simp
  have tk3: "take N (mat ?T3) = cols"
    using take_undone [of "mat T2" N I J cols] sz2 IJ m2 lc N127 by simp
  have d1: "take (2 * a) (ind T1) = take (2 * a) (ind T)"
    unfolding T1'(5) using dL by (simp add: a_def)
  have "take (2 * a) (take (2 * a + 2) (ind T2)) = take (2 * a) (take (2 * a + 2) (ind T1))"
    using d2 by simp
  then have d3: "take (2 * a) (ind T2) = take (2 * a) (ind T)"
    using d1 by (simp add: min_def)
  have e: "ind T2 ! (2 * a) = i" "ind T2 ! (2 * a + 1) = j"
  proof -
    have "ind T2 ! k = ind T1 ! k" if "k < 2 * a + 2" for k
      using that d2 by (metis nth_take)
    from this [of "2 * a"] this [of "2 * a + 1"] show "ind T2 ! (2 * a) = i" "ind T2 ! (2 * a + 1) = j"
      unfolding T1'(5) using dL(1) a2 by simp_all
  qed
  define m where "m = nat (n T2 - n T1)"
  have m: "nat (n T2 - n T) = Suc m" using nn T1'(1) by (simp add: m_def)
  have H: "history (ind T2) a (Suc (a + m)) = (i, j) # history (ind T2) (Suc a) (Suc (a + m))"
    using history_Cons [of "Suc m" "ind T2" a] e by simp
  from rec have "valid_history (n T1) (history (ind T2) (Suc a) (Suc a + m)) \<and>
      replay_gates (take (Suc N) (mat T1)) (g T1) (history (ind T2) (Suc a) (Suc a + m)) = g T2"
    by (simp add: recorded_def n1 m_def)
  then have v1: "valid_history (n T + 1) (history (ind T2) (Suc a) (Suc a + m))"
    and r1: "replay_gates (factor cols (i, j)) (g T - savings c) (history (ind T2) (Suc a) (Suc a + m)) = g T2"
    by (simp_all add: T1'(1,2,4) c_def)
  have "recorded T (ind ?T3) a (n ?T3) (g ?T3)"
    unfolding recorded_def
    using v1 r1 ij ov share_entry_savings [OF cc16]
    by (simp add: m H N_def [symmetric] cols_def [symmetric])
  moreover have "same_prefix T ?T3"
  proof -
    have "nat (2 * n T - 16) = 2 * a" using n8 by (simp add: a_def)
    then show ?thesis
      unfolding same_prefix_def using sz2 tk3 d3
      by (simp add: sized_def N_def [symmetric] cols_def [symmetric])
  qed
  moreover have "n T \<le> n ?T3" "n T < n ?T3" "n ?T3 \<le> n T + int (weight T div 2)"
    "g ?T3 \<le> g T - savings c" "g ?T3 \<le> g T"
    using nn gg T1'(1,2,3) savings_nonneg [of c] by (simp_all add: c_def)
  ultimately have "undo i j (mat T ! I) (mat T ! J) T2 = Inr ?T3 \<and> searched T ?T3 \<and>
      n T < n ?T3 \<and> g ?T3 \<le> g T - savings c"
    using un by (simp add: searched_def a_def)
  then show ?thesis
    unfolding c_def I_def J_def by blast
qed

lemma searched_facts:
  assumes "searchable T" and "searched T T'"
  shows "sized T'" and "length (mat T') = 128" and "length (ind T') = 256"
    and "take (nat (n T)) (mat T') = take (nat (n T)) (mat T)"
    and "take (2 * nat (n T - 8)) (ind T') = take (2 * nat (n T - 8)) (ind T)"
    and "n T \<le> n T'" and "n T' \<le> n T + int (weight T div 2)" and "n T' \<le> 128"
    and "g T' \<le> g T"
    and "recorded T (ind T') (nat (n T - 8)) (n T') (g T')"
proof -
  note sf = searchable_facts [OF assms(1)]
  from assms(2) show "sized T'" "length (mat T') = 128" "length (ind T') = 256"
    "take (nat (n T)) (mat T') = take (nat (n T)) (mat T)"
    "n T \<le> n T'" "n T' \<le> n T + int (weight T div 2)" "g T' \<le> g T"
    "recorded T (ind T') (nat (n T - 8)) (n T') (g T')"
    by (simp_all add: searched_def same_prefix_def sized_def)
  from assms(2) show "take (2 * nat (n T - 8)) (ind T') = take (2 * nat (n T - 8)) (ind T)"
    unfolding searched_def same_prefix_def sf(3) by simp
  from assms(2) sf(1,7) show "n T' \<le> 128"
    unfolding searched_def by linarith
qed

lemma searched_refl: "searchable T \<Longrightarrow> searched T T"
  by (simp add: searched_def same_prefix_def searchable_def recorded_def)

text \<open>Lines 137--141 keep the invariant, whether the result is saved or not.\<close>

lemma save_best_looping:
  assumes sT: "searchable T" and lp: "looping T L" and T3: "searched T T3"
  shows "\<exists>L'. save_best (n T) (L\<lparr>test := T3\<rparr>) = Inr L' \<and> looping T L' \<and> test L' = T3"
proof (cases "g T3 < gb L")
  case False
  with lp T3 show ?thesis
    by (simp add: save_best_def looping_def)
next
  case True
  define a m where "a = nat (n T - 8)" and "m = nat (n T3 - n T)"
  note sf = searchable_facts [OF sT, folded a_def]
  note s3 = searched_facts [OF sT T3, folded a_def]
  from lp have lb: "length (indb L) = 256" and gb: "gb L \<le> 1024"
    by (simp_all add: looping_def)
  have len: "(n T3 - n T) * 2 = int (2 * m)" "2 * (n T - 8) = int (2 * a)"
    using s3(6) sf(10) by (simp_all add: m_def a_def)
  have rng: "2 * a + 2 * m \<le> 256"
    using s3(6,8) sf(10) by (simp add: m_def a_def)
  then have "\<exists>b. memcpy (indb L) 0 (ind T3) (2 * (n T - 8)) ((n T3 - n T) * 2) = Inr b"
    unfolding len using lb s3(3) by (simp add: memcpy_def)
  then obtain b where b: "memcpy (indb L) 0 (ind T3) (int (2 * a)) (int (2 * m)) = Inr b"
    unfolding len by blast
  note mb = memcpy_eq_Inr [OF b]
  have mb2: "b ! k = ind T3 ! (2 * a + k)" if "k < 2 * m" for k
    using mb(2) [of k] that by (simp add: nat_mult_distrib)
  have "history b 0 (0 + m) = history (ind T3) a (a + m)"
    by (intro history_shift) (simp add: mb2)
  with s3(10) have rb: "recorded T b 0 (n T3) (g T3)"
    by (simp add: recorded_def m_def)
  let ?L = "L\<lparr>test := T3, indb := b, nb := n T3, gb := g T3\<rparr>"
  have "save_best (n T) (L\<lparr>test := T3\<rparr>) =
        bnd (memcpy (indb L) 0 (ind T3) (2 * (n T - 8)) ((n T3 - n T) * 2))
          (\<lambda>b. Inr (L\<lparr>test := T3, indb := b, nb := n T3, gb := g T3\<rparr>))"
    using True by (simp add: save_best_def)
  also have "\<dots> = Inr ?L"
    unfolding len b by simp
  finally have "save_best (n T) (L\<lparr>test := T3\<rparr>) = Inr ?L" .
  moreover have "looping T ?L"
    using T3 True gb mb(1) lb rb s3(6,7,9) by (simp add: looping_def)
  ultimately show ?thesis by simp
qed

text \<open>Lines 125--141 for a pair whose overlap saves something.\<close>

lemma expand_looping:
  assumes sT: "searchable T"
    and IH: "\<And>T1. searchable T1 \<Longrightarrow> weight T1 + 2 \<le> weight T \<Longrightarrow> \<exists>T2. rec T1 = Inr T2 \<and> searched T1 T2"
    and lp: "looping T L"
    and ij: "0 \<le> i" "i < j" "j < n T"
    and sv: "savings (mat T ! nat i AND mat T ! nat j) \<noteq> 0"
  shows "\<exists>L'. expand rec (n T) (g T) i j (mat T ! nat i AND mat T ! nat j)
                 (savings (mat T ! nat i AND mat T ! nat j)) L = Inr L' \<and> looping T L' \<and>
               n T < n (test L') \<and> mat (test L') ! nat i = mat T ! nat i \<and>
               mat (test L') ! nat j = mat T ! nat j"
proof -
  from lp have sL: "searched T (test L)" by (simp add: looping_def)
  note sf = searchable_facts [OF sT]
  note s0 = searched_facts [OF sT sL]
  have IJ: "nat i < nat (n T)" "nat j < nat (n T)" using ij by simp_all
  have ri: "rd (mat (test L)) i = Inr (mat T ! nat i)"
    and rj: "rd (mat (test L)) j = Inr (mat T ! nat j)"
    using ij s0(2) sf(1,7) nth_take [OF IJ(1), of "mat (test L)"] nth_take [OF IJ(2), of "mat (test L)"]
      nth_take [OF IJ(1), of "mat T"] nth_take [OF IJ(2), of "mat T"] s0(4)
    by (simp_all add: rd_def)
  from combine_searchable [OF sT s0(1,4) ij sv]
  obtain T1 where T1: "combine (n T) (g T) i j (mat T ! nat i AND mat T ! nat j)
                 (savings (mat T ! nat i AND mat T ! nat j)) (test L) = Inr T1"
    "searchable T1" "n T1 = n T + 1" "g T1 = g T - savings (mat T ! nat i AND mat T ! nat j)"
    "weight T1 + 2 \<le> weight T" "n T1 + int (weight T1 div 2) \<le> n T + int (weight T div 2)"
    "take (Suc (nat (n T))) (mat T1) = factor (take (nat (n T)) (mat T)) (i, j)"
    "ind T1 = (ind (test L))[2 * nat (n T - 8) := i, 2 * nat (n T - 8) + 1 := j]"
    by blast
  from IH [OF T1(2,5)] obtain T2 where T2: "rec T1 = Inr T2" "searched T1 T2" by blast
  from undo_searched [OF sT ij T1(3,4,6,7,8) s0(3,5) T2(2)]
  obtain T3 where T3: "undo i j (mat T ! nat i) (mat T ! nat j) T2 = Inr T3" "searched T T3"
    "n T < n T3" by blast
  from save_best_looping [OF sT lp T3(2)]
  obtain L' where L': "save_best (n T) (L\<lparr>test := T3\<rparr>) = Inr L'" "looping T L'" "test L' = T3"
    by blast
  note s3 = searched_facts [OF sT T3(2)]
  have "mat T3 ! nat i = mat T ! nat i" "mat T3 ! nat j = mat T ! nat j"
    using nth_take [OF IJ(1), of "mat T3"] nth_take [OF IJ(2), of "mat T3"]
      nth_take [OF IJ(1), of "mat T"] nth_take [OF IJ(2), of "mat T"] s3(4) by simp_all
  with L' T3(3) show ?thesis
    by (simp add: expand_def ri rj T1(1) T2(1) T3(1))
qed

section \<open>The search returns, inside the arrays\<close>

lemma pair_step_looping:
  assumes sT: "searchable T"
    and IH: "\<And>T1. searchable T1 \<Longrightarrow> weight T1 + 2 \<le> weight T \<Longrightarrow> \<exists>T2. rec T1 = Inr T2 \<and> searched T1 T2"
    and lp: "looping T L"
    and ij: "0 \<le> i" "i < j" "j < n T"
  shows "\<exists>L'. pair_step rec (n T) (g T) io jo i j L = Inr L' \<and> looping T L'"
proof -
  from lp have sL: "searched T (test L)" by (simp add: looping_def)
  note sf = searchable_facts [OF sT]
  note s0 = searched_facts [OF sT sL]
  have IJ: "nat i < nat (n T)" "nat j < nat (n T)" using ij by simp_all
  have ri: "rd (mat (test L)) i = Inr (mat T ! nat i)"
    and rj: "rd (mat (test L)) j = Inr (mat T ! nat j)"
    using ij s0(2) sf(1,7) nth_take [OF IJ(1), of "mat (test L)"] nth_take [OF IJ(2), of "mat (test L)"]
      nth_take [OF IJ(1), of "mat T"] nth_take [OF IJ(2), of "mat T"] s0(4)
    by (simp_all add: rd_def)
  have "col16 (mat T ! nat i)"
    using sf(8,9) IJ(1) by (metis list_all_length nth_take)
  then have c16: "col16 (mat T ! nat i AND mat T ! nat j)" by (rule col16_and)
  have sh: "share (uint (mat T ! nat i AND mat T ! nat j)) = Inr (savings (mat T ! nat i AND mat T ! nat j))"
    using c16 by (simp add: col16_share share_entry_savings)
  show ?thesis
  proof (cases "savings (mat T ! nat i AND mat T ! nat j) \<noteq> 0 \<and>
      \<not> (i < io \<and> j \<noteq> io \<and> j \<noteq> jo \<and> j < n T - 1)")
    case True
    with expand_looping [OF sT IH lp ij] show ?thesis
      by (auto simp: pair_step_def ri rj sh Let_def)
  next
    case False
    with lp show ?thesis
      by (auto simp: pair_step_def ri rj sh Let_def)
  qed
qed

lemma column_loop_looping:
  assumes sT: "searchable T"
    and IH: "\<And>T1. searchable T1 \<Longrightarrow> weight T1 + 2 \<le> weight T \<Longrightarrow> \<exists>T2. rec T1 = Inr T2 \<and> searched T1 T2"
    and lp: "looping T L"
    and i: "0 \<le> i"
  shows "\<exists>L'. column_loop rec (n T) (g T) io jo i L = Inr L' \<and> looping T L'"
  unfolding column_loop_def
proof (rule for_each_invariant [where I = "looping T", OF lp])
  fix j L1
  assume "j \<in> set [i + 1..n T - 1]" and "looping T L1"
  then show "\<exists>L'. pair_step rec (n T) (g T) io jo i j L1 = Inr L' \<and> looping T L'"
    using i by (intro pair_step_looping [OF sT IH]) simp_all
qed

lemma bestgates_body_searched:
  assumes sT: "searchable T"
    and IH: "\<And>T1. searchable T1 \<Longrightarrow> weight T1 + 2 \<le> weight T \<Longrightarrow> \<exists>T2. rec T1 = Inr T2 \<and> searched T1 T2"
  shows "\<exists>T'. bestgates_body rec T = Inr T' \<and> searched T T'"
proof -
  define a where "a = nat (n T - 8)"
  note sf = searchable_facts [OF sT, folded a_def]
  have "n T \<le> 128" using sf(1,7) by linarith
  then have ep: "entry_pair T = Inr (recent_pair T)"
    using sT sf(10) by (intro entry_pair_recent) (simp_all add: searchable_def)
  obtain io jo where old: "recent_pair T = (io, jo)" by (cases "recent_pair T")
  let ?L0 = "\<lparr>test = T, gb = 1024, nb = 0, indb = replicate 256 0\<rparr>"
  have "looping T ?L0"
    using searched_refl [OF sT] by (simp add: looping_def)
  then have "\<exists>L. for_each (column_loop rec (n T) (g T) io jo) [0..n T - 2] ?L0 = Inr L \<and> looping T L"
  proof (rule for_each_invariant [where I = "looping T"])
    fix i L1
    assume "i \<in> set [0..n T - 2]" and "looping T L1"
    then show "\<exists>L'. column_loop rec (n T) (g T) io jo i L1 = Inr L' \<and> looping T L'"
      by (intro column_loop_looping [OF sT IH]) simp_all
  qed
  then obtain L where L: "for_each (column_loop rec (n T) (g T) io jo) [0..n T - 2] ?L0 = Inr L"
    and lp: "looping T L" by blast
  from lp have sL: "searched T (test L)" and lb: "length (indb L) = 256"
    by (simp_all add: looping_def)
  note s0 = searched_facts [OF sT sL, folded a_def]
  have body: "bestgates_body rec T =
      (if gb L < 1024
       then bnd (memcpy (ind (test L)) (2 * (n T - 8)) (indb L) 0 ((nb L - n T) * 2))
              (\<lambda>d. Inr ((test L)\<lparr>ind := d, n := nb L, g := gb L\<rparr>))
       else Inr (test L))"
    by (simp add: bestgates_body_def Let_def ep old L)
  show ?thesis
  proof (cases "gb L < 1024")
    case False
    with body sL show ?thesis by simp
  next
    case True
    with lp have best: "gb L \<le> g T" "n T \<le> nb L" "nb L \<le> n T + int (weight T div 2)"
      "recorded T (indb L) 0 (nb L) (gb L)"
      by (simp_all add: looping_def)
    define m where "m = nat (nb L - n T)"
    have nb128: "nb L \<le> 128" using best(3) sf(1,7) by linarith
    have len: "(nb L - n T) * 2 = int (2 * m)" "2 * (n T - 8) = int (2 * a)"
      using best(2) sf(10) by (simp_all add: m_def a_def)
    have rng: "2 * a + 2 * m \<le> 256"
      using best(2) nb128 sf(10) by (simp add: m_def a_def)
    then have "\<exists>d. memcpy (ind (test L)) (2 * (n T - 8)) (indb L) 0 ((nb L - n T) * 2) = Inr d"
      unfolding len using lb s0(3) by (simp add: memcpy_def)
    then obtain d where d: "memcpy (ind (test L)) (int (2 * a)) (indb L) 0 (int (2 * m)) = Inr d"
      unfolding len by blast
    note md = memcpy_eq_Inr [OF d]
    have md2: "d ! (2 * a + k) = indb L ! k" if "k < 2 * m" for k
      using md(2) [of k] that by (simp add: nat_mult_distrib)
    have md4: "take (2 * a) d = take (2 * a) (ind (test L))"
      using md(4) by (simp add: nat_mult_distrib)
    have "history d a (a + m) = history (indb L) 0 (0 + m)"
      by (intro history_shift) (simp add: md2)
    with best(4) have rd': "recorded T d a (nb L) (gb L)"
      by (simp add: recorded_def m_def)
    let ?T' = "(test L)\<lparr>ind := d, n := nb L, g := gb L\<rparr>"
    have "bestgates_body rec T = Inr ?T'"
      unfolding body len d using True by simp
    moreover have "same_prefix T ?T'"
      unfolding same_prefix_def sf(3)
      using s0(2,3,4,5) md(1) md4 by (simp add: sized_def a_def)
    ultimately show ?thesis
      using best(1,2,3) rd' by (simp add: searched_def a_def)
  qed
qed

text \<open>
  With more fuel than half the weight, the search on a searchable state returns; nothing
  faults on the way, since a fault would be the value.
\<close>

lemma bestgates_searched:
  "searchable T \<Longrightarrow> weight T < 2 * k \<Longrightarrow> \<exists>T'. bestgates k T = Inr T' \<and> searched T T'"
proof (induction k arbitrary: T)
  case 0
  then show ?case by simp
next
  case (Suc k)
  have "\<exists>T2. bestgates k T1 = Inr T2 \<and> searched T1 T2"
    if "searchable T1" "weight T1 + 2 \<le> weight T" for T1
    using that Suc.prems(2) by (intro Suc.IH) simp_all
  with Suc.prems(1) show ?case
    by (simp add: bestgates_body_searched)
qed

section \<open>The two loops as one loop over the candidate pairs\<close>

lemma bnd_assoc: "bnd (bnd m f) h = bnd m (\<lambda>x. bnd (f x) h)"
  by (cases m) simp_all

lemma bnd_cong_Inr: "(\<And>x. m = Inr x \<Longrightarrow> f x = h x) \<Longrightarrow> bnd m f = bnd m h"
  by (cases m) simp_all

lemma for_each_append: "for_each f (xs @ ys) s = bnd (for_each f xs s) (for_each f ys)"
proof (induction xs arbitrary: s)
  case Nil
  show ?case by simp
next
  case (Cons x xs)
  have "for_each f (xs @ ys) = (\<lambda>s. bnd (for_each f xs s) (for_each f ys))"
    by (rule ext) (rule Cons.IH)
  then show ?case by (simp add: bnd_assoc)
qed

lemma for_each_map: "for_each f (map h xs) s = for_each (\<lambda>x. f (h x)) xs s"
proof (induction xs arbitrary: s)
  case Nil
  show ?case by simp
next
  case (Cons x xs)
  have "for_each f (map h xs) = for_each (\<lambda>x. f (h x)) xs"
    by (rule ext) (rule Cons.IH)
  then show ?case by simp
qed

lemma for_each_concat:
  "for_each f (concat (map (\<lambda>i. map (Pair i) (js i)) is)) s =
   for_each (\<lambda>i. for_each (\<lambda>j. f (i, j)) (js i)) is s"
proof (induction "is" arbitrary: s)
  case Nil
  show ?case by simp
next
  case (Cons i "is")
  have "for_each f (concat (map (\<lambda>i. map (Pair i) (js i)) is)) =
        for_each (\<lambda>i. for_each (\<lambda>j. f (i, j)) (js i)) is"
    by (rule ext) (rule Cons.IH)
  then show ?case by (simp add: for_each_append for_each_map)
qed

text \<open>
  A loop whose rounds either skip or run \<open>h\<close>, decided by a test \<open>P\<close> that does not look
  at the state, is the loop of \<open>h\<close> over the values that pass the test.
\<close>

lemma for_each_filter:
  assumes "I s"
    and "\<And>x s. x \<in> set xs \<Longrightarrow> I s \<Longrightarrow> f x s = (if P x then h x s else Inr s)"
    and "\<And>x s s'. x \<in> set xs \<Longrightarrow> I s \<Longrightarrow> P x \<Longrightarrow> h x s = Inr s' \<Longrightarrow> I s'"
  shows "for_each f xs s = for_each h (filter P xs) s"
  using assms
proof (induction xs arbitrary: s)
  case Nil
  then show ?case by simp
next
  case (Cons x xs)
  have step: "f x s = (if P x then h x s else Inr s)"
    using Cons.prems(1) by (intro Cons.prems(2)) simp_all
  have IH: "for_each f xs s' = for_each h (filter P xs) s'" if "I s'" for s'
  proof (rule Cons.IH [OF that])
    fix y t
    assume "y \<in> set xs" "I t"
    then show "f y t = (if P y then h y t else Inr t)"
      by (intro Cons.prems(2)) simp_all
  next
    fix y t t'
    assume "y \<in> set xs" "I t" "P y" "h y t = Inr t'"
    then show "I t'"
      using Cons.prems(3) [of y t t'] by simp
  qed
  show ?case
  proof (cases "P x")
    case False
    with step IH [OF Cons.prems(1)] show ?thesis by simp
  next
    case True
    show ?thesis
    proof (cases "h x s")
      case (Inl e)
      with True step show ?thesis by simp
    next
      case (Inr s')
      with Cons.prems(1) True have "I s'"
        using Cons.prems(3) [of x s s'] by simp
      with True step Inr IH [of s'] show ?thesis by simp
    qed
  qed
qed

text \<open>What each round keeps holds when the loop returns.\<close>

lemma for_each_keeps:
  assumes "I s" and "for_each f xs s = Inr s'"
    and "\<And>x s s'. x \<in> set xs \<Longrightarrow> I s \<Longrightarrow> f x s = Inr s' \<Longrightarrow> I s'"
  shows "I s'"
  using assms
proof (induction xs arbitrary: s)
  case Nil
  then show ?case by simp
next
  case (Cons x xs)
  show ?case
  proof (cases "f x s")
    case (Inl e)
    with Cons.prems(2) show ?thesis by simp
  next
    case (Inr s1)
    with Cons.prems(1) have "I s1"
      using Cons.prems(3) [of x s s1] by simp
    moreover from Cons.prems(2) Inr have "for_each f xs s1 = Inr s'" by simp
    ultimately show ?thesis
    proof (rule Cons.IH)
      fix y t t'
      assume "y \<in> set xs" "I t" "f y t = Inr t'"
      then show "I t'" using Cons.prems(3) [of y t t'] by simp
    qed
  qed
qed

lemma candidate_pairs_range:
  "p \<in> set (candidate_pairs n0) \<Longrightarrow> 0 \<le> fst p \<and> fst p < snd p \<and> snd p < n0"
  by (auto simp: candidate_pairs_def)

section \<open>One expanded pair\<close>

text \<open>Lines 125--133 on the working state are the combine of the specification.\<close>

lemma combine_combined:
  assumes sT: "searchable T"
    and sW: "sized W" "take (nat (n T)) (mat W) = take (nat (n T)) (mat T)"
    and ij: "0 \<le> i" "i < j" "j < n T"
    and sv: "savings (mat T ! nat i AND mat T ! nat j) \<noteq> 0"
  shows "combine (n T) (g T) i j (mat T ! nat i AND mat T ! nat j)
           (savings (mat T ! nat i AND mat T ! nat j)) W = Inr (combined T (i, j) W)"
proof -
  define N a where "N = nat (n T)" and "a = nat (n T - 8)"
  note sf = searchable_facts [OF sT, folded N_def a_def]
  define I J where "I = nat i" and "J = nat j"
  from ij sf(1) have IJ: "i = int I" "j = int J" "I < J" "J < N" "I < N" "I \<noteq> J"
    by (simp_all add: I_def J_def)
  define M where "M = mat W"
  define c where "c = mat T ! I AND mat T ! J"
  from combine_searchable [OF sT sW ij sv]
  obtain T1 where "searchable T1" "n T1 = n T + 1" by blast
  then have "n T + 1 \<le> 128" by (simp add: searchable_def)
  with sf(1) have N127: "N < 128" "n T < 128" by simp_all
  have lM: "length M = 128" "length (ind W) = 256" using sW(1) by (simp_all add: M_def sized_def)
  have colsM: "take N M = take N (mat T)" using sW(2) by (simp add: M_def N_def)
  have MI: "M ! I = mat T ! I" "M ! J = mat T ! J"
    using IJ nth_take [of I N M] nth_take [of J N M] nth_take [of I N "mat T"] nth_take [of J N "mat T"]
      colsM by simp_all
  have cM: "c = M ! I AND M ! J" by (simp add: c_def MI)
  let ?m = "M[I := M ! I XOR c, J := M[I := M ! I XOR c] ! J XOR c, N := c]"
  have rng: "8 \<le> n T" "i < n T" "0 \<le> j" using sf(10) ij by simp_all
  have comb: "combine (n T) (g T) i j c (savings c) W =
      Inr (W\<lparr>mat := ?m, ind := (ind W)[2 * a := i, 2 * a + 1 := j], n := n T + 1,
               g := g T - savings c\<rparr>)"
    using combine_in [OF sW(1) rng(1) N127(2) ij(1) rng(2,3) ij(3), of "g T" c "savings c"]
    unfolding sf(3,4) N_def [symmetric] a_def [symmetric] I_def [symmetric] J_def [symmetric]
      M_def [symmetric] MI .
  have tk: "take (Suc N) ?m = factor (take N (mat T)) (i, j)"
    using take_combined [of M N I J c] lM N127 IJ cM colsM by simp
  have dr: "drop (Suc N) ?m = drop (Suc N) M"
    using IJ by simp
  have "?m = take (Suc N) ?m @ drop (Suc N) ?m"
    by (rule append_take_drop_id [symmetric])
  then have m: "?m = factor (take N (mat T)) (i, j) @ drop (Suc N) M"
    unfolding tk dr .
  have ov: "overlap (mat T) (i, j) = c"
    by (simp add: overlap_def c_def I_def J_def)
  have "combined T (i, j) W =
      W\<lparr>mat := ?m, ind := (ind W)[2 * a := i, 2 * a + 1 := j], n := n T + 1, g := g T - savings c\<rparr>"
    unfolding combined_def ov m by (simp add: N_def a_def M_def)
  with comb show ?thesis
    unfolding c_def I_def J_def by simp
qed

text \<open>Lines 135--136 on the state a recursive call returned.\<close>

lemma undo_restored:
  assumes "length (mat R) = 128" "0 \<le> i" "i < 128" "0 \<le> j" "j < 128"
  shows "undo i j (mat T ! nat i) (mat T ! nat j) R = Inr (restored T (i, j) R)"
  using assms by (simp add: undo_def restored_def wr_in)

text \<open>Lines 137--141 on a state that continues \<open>T\<close>.\<close>

lemma save_best_remembered:
  assumes sT: "searchable T" and lp: "looping T L" and T3: "searched T T3"
  shows "save_best (n T) (L\<lparr>test := T3\<rparr>) = Inr (remembered T T3 L)"
proof (cases "g T3 < gb L")
  case False
  then show ?thesis by (simp add: save_best_def remembered_def)
next
  case True
  define a m where "a = nat (n T - 8)" and "m = nat (n T3 - n T)"
  note sf = searchable_facts [OF sT, folded a_def]
  note s3 = searched_facts [OF sT T3, folded a_def]
  from lp have lb: "length (indb L) = 256" by (simp add: looping_def)
  have len: "(n T3 - n T) * 2 = int (2 * m)" "2 * (n T - 8) = int (2 * a)"
    using s3(6) sf(10) by (simp_all add: m_def a_def)
  have rng: "2 * a + 2 * m \<le> 256"
    using s3(6,8) sf(10) by (simp add: m_def a_def)
  have b: "memcpy (indb L) 0 (ind T3) (int (2 * a)) (int (2 * m)) =
        Inr (take (2 * m) (drop (2 * a) (ind T3)) @ drop (2 * m) (indb L))"
    using rng lb s3(3) by (simp add: memcpy_def nat_mult_distrib)
  have "save_best (n T) (L\<lparr>test := T3\<rparr>) =
        bnd (memcpy (indb L) 0 (ind T3) (2 * (n T - 8)) ((n T3 - n T) * 2))
          (\<lambda>b. Inr (L\<lparr>test := T3, indb := b, nb := n T3, gb := g T3\<rparr>))"
    using True by (simp add: save_best_def)
  also have "\<dots> = Inr (L\<lparr>test := T3,
               indb := take (2 * m) (drop (2 * a) (ind T3)) @ drop (2 * m) (indb L),
               nb := n T3, gb := g T3\<rparr>)"
    unfolding len b by simp
  finally have "save_best (n T) (L\<lparr>test := T3\<rparr>) =
        Inr (L\<lparr>test := T3, indb := take (2 * m) (drop (2 * a) (ind T3)) @ drop (2 * m) (indb L),
               nb := n T3, gb := g T3\<rparr>)" .
  moreover have "remembered T T3 L =
        L\<lparr>test := T3, indb := take (2 * m) (drop (2 * a) (ind T3)) @ drop (2 * m) (indb L),
          nb := n T3, gb := g T3\<rparr>"
    using True by (simp add: remembered_def a_def m_def)
  ultimately show ?thesis by simp
qed

text \<open>
  Lines 125--141 for a pair whose overlap saves something are one visit of the
  specification, and the visit keeps the invariant of the loops. The recursive call may
  be anything that, when it returns, has continued the state it was given.
\<close>

lemma expand_visit:
  assumes sT: "searchable T"
    and fr: "\<And>S R. searchable S \<Longrightarrow> weight S + 2 \<le> weight T \<Longrightarrow> rec S = Inr R \<Longrightarrow> searched S R"
    and lp: "looping T L"
    and ij: "0 \<le> i" "i < j" "j < n T"
    and sv: "savings (mat T ! nat i AND mat T ! nat j) \<noteq> 0"
  shows "expand rec (n T) (g T) i j (mat T ! nat i AND mat T ! nat j)
           (savings (mat T ! nat i AND mat T ! nat j)) L = visit rec T (i, j) L"
    and "visit rec T (i, j) L = Inr L' \<Longrightarrow> looping T L'"
proof -
  from lp have sL: "searched T (test L)" by (simp add: looping_def)
  note sf = searchable_facts [OF sT]
  note s0 = searched_facts [OF sT sL]
  have IJ: "nat i < nat (n T)" "nat j < nat (n T)" using ij by simp_all
  have ri: "rd (mat (test L)) i = Inr (mat T ! nat i)"
    and rj: "rd (mat (test L)) j = Inr (mat T ! nat j)"
    using ij s0(2) sf(1,7) nth_take [OF IJ(1), of "mat (test L)"] nth_take [OF IJ(2), of "mat (test L)"]
      nth_take [OF IJ(1), of "mat T"] nth_take [OF IJ(2), of "mat T"] s0(4)
    by (simp_all add: rd_def)
  define S where "S = combined T (i, j) (test L)"
  have cS: "combine (n T) (g T) i j (mat T ! nat i AND mat T ! nat j)
                 (savings (mat T ! nat i AND mat T ! nat j)) (test L) = Inr S"
    unfolding S_def by (rule combine_combined [OF sT s0(1,4) ij sv])
  from combine_searchable [OF sT s0(1,4) ij sv] cS
  have S: "searchable S" "n S = n T + 1" "g S = g T - savings (mat T ! nat i AND mat T ! nat j)"
    "weight S + 2 \<le> weight T" "n S + int (weight S div 2) \<le> n T + int (weight T div 2)"
    "take (Suc (nat (n T))) (mat S) = factor (take (nat (n T)) (mat T)) (i, j)"
    "ind S = (ind (test L))[2 * nat (n T - 8) := i, 2 * nat (n T - 8) + 1 := j]"
    by auto
  have i128: "i < 128" "0 \<le> j" "j < 128" using ij sf(1,7) by linarith+
  have after: "bnd (undo i j (mat T ! nat i) (mat T ! nat j) R)
                 (\<lambda>T3. save_best (n T) (L\<lparr>test := T3\<rparr>)) =
               Inr (remembered T (restored T (i, j) R) L) \<and>
               looping T (remembered T (restored T (i, j) R) L)"
    if R: "rec S = Inr R" for R
  proof -
    from fr [OF S(1,4) R] have sR: "searched S R" .
    note sr = searched_facts [OF S(1) sR]
    have un: "undo i j (mat T ! nat i) (mat T ! nat j) R = Inr (restored T (i, j) R)"
      using sr(2) ij(1) i128 by (rule undo_restored)
    from undo_searched [OF sT ij S(2,3,5,6,7) s0(3,5) sR] un
    have s3: "searched T (restored T (i, j) R)" by auto
    from save_best_looping [OF sT lp s3] save_best_remembered [OF sT lp s3]
    have "looping T (remembered T (restored T (i, j) R) L)" by auto
    with un save_best_remembered [OF sT lp s3] show ?thesis by simp
  qed
  have "expand rec (n T) (g T) i j (mat T ! nat i AND mat T ! nat j)
          (savings (mat T ! nat i AND mat T ! nat j)) L =
        bnd (rec S) (\<lambda>T2. bnd (undo i j (mat T ! nat i) (mat T ! nat j) T2)
                 (\<lambda>T3. save_best (n T) (L\<lparr>test := T3\<rparr>)))"
    by (simp add: expand_def ri rj cS)
  also have "\<dots> = bnd (rec S) (\<lambda>R. Inr (remembered T (restored T (i, j) R) L))"
    by (rule bnd_cong_Inr) (simp add: after)
  finally show "expand rec (n T) (g T) i j (mat T ! nat i AND mat T ! nat j)
           (savings (mat T ! nat i AND mat T ! nat j)) L = visit rec T (i, j) L"
    by (simp add: visit_def S_def)
  show "looping T L'" if "visit rec T (i, j) L = Inr L'"
  proof (cases "rec S")
    case (Inl e)
    with that show ?thesis by (simp add: visit_def S_def)
  next
    case (Inr R)
    with that after [OF Inr] show ?thesis by (auto simp: visit_def S_def)
  qed
qed

section \<open>The loops of a call\<close>

text \<open>Lines 118--142 for one candidate pair.\<close>

lemma pair_step_visit:
  assumes sT: "searchable T"
    and fr: "\<And>S R. searchable S \<Longrightarrow> weight S + 2 \<le> weight T \<Longrightarrow> rec S = Inr R \<Longrightarrow> searched S R"
    and lp: "looping T L"
    and ij: "0 \<le> i" "i < j" "j < n T"
  shows "pair_step rec (n T) (g T) (fst (recent_pair T)) (snd (recent_pair T)) i j L =
         (if expanded T (i, j) then visit rec T (i, j) L else Inr L)"
proof -
  from lp have sL: "searched T (test L)" by (simp add: looping_def)
  note sf = searchable_facts [OF sT]
  note s0 = searched_facts [OF sT sL]
  have IJ: "nat i < nat (n T)" "nat j < nat (n T)" using ij by simp_all
  have ri: "rd (mat (test L)) i = Inr (mat T ! nat i)"
    and rj: "rd (mat (test L)) j = Inr (mat T ! nat j)"
    using ij s0(2) sf(1,7) nth_take [OF IJ(1), of "mat (test L)"] nth_take [OF IJ(2), of "mat (test L)"]
      nth_take [OF IJ(1), of "mat T"] nth_take [OF IJ(2), of "mat T"] s0(4)
    by (simp_all add: rd_def)
  have "col16 (mat T ! nat i)"
    using sf(8,9) IJ(1) by (metis list_all_length nth_take)
  then have c16: "col16 (mat T ! nat i AND mat T ! nat j)" by (rule col16_and)
  have sh: "share (uint (mat T ! nat i AND mat T ! nat j)) = Inr (savings (mat T ! nat i AND mat T ! nat j))"
    using c16 by (simp add: col16_share share_entry_savings)
  have ex: "expanded T (i, j) \<longleftrightarrow>
      savings (mat T ! nat i AND mat T ! nat j) \<noteq> 0 \<and>
      \<not> (i < fst (recent_pair T) \<and> j \<noteq> fst (recent_pair T) \<and> j \<noteq> snd (recent_pair T) \<and> j < n T - 1)"
    by (simp add: expanded_def overlap_def canonically_pruned_def)
  show ?thesis
  proof (cases "expanded T (i, j)")
    case True
    with ex have sv: "savings (mat T ! nat i AND mat T ! nat j) \<noteq> 0" by simp
    from True ex expand_visit(1) [OF sT fr lp ij sv] show ?thesis
      by (auto simp: pair_step_def ri rj sh Let_def)
  next
    case False
    with ex show ?thesis
      by (auto simp: pair_step_def ri rj sh Let_def)
  qed
qed

text \<open>Lines 116--143: the two loops visit the expanded candidates, in their order.\<close>

lemma loops_visits:
  assumes sT: "searchable T"
    and fr: "\<And>S R. searchable S \<Longrightarrow> weight S + 2 \<le> weight T \<Longrightarrow> rec S = Inr R \<Longrightarrow> searched S R"
    and lp: "looping T L"
  shows "for_each (column_loop rec (n T) (g T) (fst (recent_pair T)) (snd (recent_pair T)))
           [0..n T - 2] L =
         for_each (visit rec T) (filter (expanded T) (candidate_pairs (n T))) L"
proof -
  let ?step = "\<lambda>p. pair_step rec (n T) (g T) (fst (recent_pair T)) (snd (recent_pair T)) (fst p) (snd p)"
  have cl: "column_loop rec (n T) (g T) (fst (recent_pair T)) (snd (recent_pair T)) =
      (\<lambda>i. for_each (\<lambda>j. ?step (i, j)) [i + 1..n T - 1])"
    by (intro ext) (simp add: column_loop_def)
  have "for_each (column_loop rec (n T) (g T) (fst (recent_pair T)) (snd (recent_pair T)))
          [0..n T - 2] L = for_each ?step (candidate_pairs (n T)) L"
    unfolding cl candidate_pairs_def by (rule for_each_concat [symmetric])
  also have "\<dots> = for_each (visit rec T) (filter (expanded T) (candidate_pairs (n T))) L"
  proof (rule for_each_filter [where I = "looping T", OF lp])
    fix p L1
    assume p: "p \<in> set (candidate_pairs (n T))" and l1: "looping T L1"
    from candidate_pairs_range [OF p]
    have r: "0 \<le> fst p" "fst p < snd p" "snd p < n T" by simp_all
    from pair_step_visit [OF sT fr l1 r]
    show "?step p L1 = (if expanded T p then visit rec T p L1 else Inr L1)" by simp
  next
    fix p L1 L2
    assume p: "p \<in> set (candidate_pairs (n T))" and l1: "looping T L1"
      and e: "expanded T p" and v: "visit rec T p L1 = Inr L2"
    from candidate_pairs_range [OF p]
    have r: "0 \<le> fst p" "fst p < snd p" "snd p < n T" by simp_all
    from e have sv: "savings (mat T ! nat (fst p) AND mat T ! nat (snd p)) \<noteq> 0"
      by (simp add: expanded_def overlap_def)
    from expand_visit(2) [OF sT fr l1 r sv] v show "looping T L2" by simp
  qed
  finally show ?thesis .
qed

lemma visits_looping:
  assumes sT: "searchable T"
    and fr: "\<And>S R. searchable S \<Longrightarrow> weight S + 2 \<le> weight T \<Longrightarrow> rec S = Inr R \<Longrightarrow> searched S R"
    and lp: "looping T L"
    and v: "for_each (visit rec T) (filter (expanded T) (candidate_pairs (n T))) L = Inr L'"
  shows "looping T L'"
proof (rule for_each_keeps [where I = "looping T", OF lp v])
  fix p L1 L2
  assume p: "p \<in> set (filter (expanded T) (candidate_pairs (n T)))" and l1: "looping T L1"
    and v: "visit rec T p L1 = Inr L2"
  from p have p': "p \<in> set (candidate_pairs (n T))" and e: "expanded T p" by simp_all
  from candidate_pairs_range [OF p']
  have r: "0 \<le> fst p" "fst p < snd p" "snd p < n T" by simp_all
  from e have sv: "savings (mat T ! nat (fst p) AND mat T ! nat (snd p)) \<noteq> 0"
    by (simp add: expanded_def overlap_def)
  from expand_visit(2) [OF sT fr l1 r sv] v show "looping T L2" by simp
qed

text \<open>Lines 144--148 after the loops.\<close>

lemma write_back_finish:
  assumes sT: "searchable T" and lp: "looping T L"
  shows "(if gb L < 1024
          then bnd (memcpy (ind (test L)) (2 * (n T - 8)) (indb L) 0 ((nb L - n T) * 2))
                 (\<lambda>d. Inr ((test L)\<lparr>ind := d, n := nb L, g := gb L\<rparr>))
          else Inr (test L)) = Inr (finish T L)"
proof (cases "gb L < 1024")
  case False
  then show ?thesis by (simp add: finish_def)
next
  case True
  define a m where "a = nat (n T - 8)" and "m = nat (nb L - n T)"
  note sf = searchable_facts [OF sT, folded a_def]
  from lp have sL: "searched T (test L)" and lb: "length (indb L) = 256"
    by (simp_all add: looping_def)
  note s0 = searched_facts [OF sT sL, folded a_def]
  from True lp have best: "n T \<le> nb L" "nb L \<le> n T + int (weight T div 2)"
    by (simp_all add: looping_def)
  have nb128: "nb L \<le> 128" using best(2) sf(1,7) by linarith
  have len: "(nb L - n T) * 2 = int (2 * m)" "2 * (n T - 8) = int (2 * a)"
    using best(1) sf(10) by (simp_all add: m_def a_def)
  have rng: "2 * a + 2 * m \<le> 256"
    using best(1) nb128 sf(10) by (simp add: m_def a_def)
  have am: "2 * nat (nb L - 8) = 2 * a + 2 * m"
    using best(1) sf(10) by (simp add: m_def a_def)
  have d: "memcpy (ind (test L)) (int (2 * a)) (indb L) 0 (int (2 * m)) =
      Inr (take (2 * a) (ind (test L)) @ take (2 * m) (indb L) @ drop (2 * a + 2 * m) (ind (test L)))"
    using rng lb s0(3) by (simp add: memcpy_def nat_mult_distrib nat_add_distrib)
  have "finish T L =
      (test L)\<lparr>ind := take (2 * a) (ind (test L)) @ take (2 * m) (indb L) @
                        drop (2 * a + 2 * m) (ind (test L)),
                n := nb L, g := gb L\<rparr>"
    using True unfolding finish_def am by (simp add: a_def m_def)
  then show ?thesis
    using True unfolding len d by simp
qed

text \<open>
  The whole call is the call of the specification, whatever the recursive call is, as
  long as that continues the state it was given when it returns.
\<close>

lemma bestgates_body_engine_call:
  assumes sT: "searchable T"
    and fr: "\<And>S R. searchable S \<Longrightarrow> weight S + 2 \<le> weight T \<Longrightarrow> rec S = Inr R \<Longrightarrow> searched S R"
  shows "bestgates_body rec T = engine_call rec T"
proof -
  note sf = searchable_facts [OF sT]
  have "n T \<le> 128" using sf(1,7) by linarith
  then have ep: "entry_pair T = Inr (recent_pair T)"
    using sT sf(10) by (intro entry_pair_recent) (simp_all add: searchable_def)
  let ?L0 = "\<lparr>test = T, gb = 1024, nb = 0, indb = replicate 256 0\<rparr>"
  let ?visits = "for_each (visit rec T) (filter (expanded T) (candidate_pairs (n T))) ?L0"
  have l0: "looping T ?L0"
    using searched_refl [OF sT] by (simp add: looping_def)
  have e2: "n T - 1 - 1 = n T - 2" by simp
  have "bestgates_body rec T =
      bnd (for_each (column_loop rec (n T) (g T) (fst (recent_pair T)) (snd (recent_pair T)))
             [0..n T - 2] ?L0)
        (\<lambda>L. if gb L < 1024
              then bnd (memcpy (ind (test L)) (2 * (n T - 8)) (indb L) 0 ((nb L - n T) * 2))
                     (\<lambda>d. Inr ((test L)\<lparr>ind := d, n := nb L, g := gb L\<rparr>))
              else Inr (test L))"
    unfolding bestgates_body_def Let_def ep bnd_Inr case_prod_beta e2 ..
  also have "\<dots> = bnd ?visits
        (\<lambda>L. if gb L < 1024
              then bnd (memcpy (ind (test L)) (2 * (n T - 8)) (indb L) 0 ((nb L - n T) * 2))
                     (\<lambda>d. Inr ((test L)\<lparr>ind := d, n := nb L, g := gb L\<rparr>))
              else Inr (test L))"
    using loops_visits [OF sT fr l0] by simp
  also have "\<dots> = bnd ?visits (\<lambda>L. Inr (finish T L))"
  proof (rule bnd_cong_Inr)
    fix L
    assume "?visits = Inr L"
    from visits_looping [OF sT fr l0 this] have "looping T L" .
    from write_back_finish [OF sT this]
    show "(if gb L < 1024
           then bnd (memcpy (ind (test L)) (2 * (n T - 8)) (indb L) 0 ((nb L - n T) * 2))
                  (\<lambda>d. Inr ((test L)\<lparr>ind := d, n := nb L, g := gb L\<rparr>))
           else Inr (test L)) = Inr (finish T L)" .
  qed
  finally show ?thesis by (simp add: engine_call_def)
qed

section \<open>The candidate pairs\<close>

lemma candidate_pairs_set:
  "set (candidate_pairs n0) = {p. 0 \<le> fst p \<and> fst p < snd p \<and> snd p < n0}"
proof (intro set_eqI iffI)
  fix p
  assume "p \<in> set (candidate_pairs n0)"
  then show "p \<in> {p. 0 \<le> fst p \<and> fst p < snd p \<and> snd p < n0}"
    by (auto simp: candidate_pairs_def)
next
  fix p :: "int \<times> int"
  obtain a b where p: "p = (a, b)" by (cases p)
  assume "p \<in> {p. 0 \<le> fst p \<and> fst p < snd p \<and> snd p < n0}"
  with p have r: "0 \<le> a" "a < b" "b < n0" by simp_all
  then have "a \<in> set [0..n0 - 2]" and "b \<in> set [a + 1..n0 - 1]" by simp_all
  then have m: "map (Pair a) [a + 1..n0 - 1] \<in>
      set (map (\<lambda>i. map (Pair i) [i + 1..n0 - 1]) [0..n0 - 2])"
    and ab: "(a, b) \<in> set (map (Pair a) [a + 1..n0 - 1])"
    by (simp_all del: set_upto)
  from m have "set (map (Pair a) [a + 1..n0 - 1]) \<in>
      set ` set (map (\<lambda>i. map (Pair i) [i + 1..n0 - 1]) [0..n0 - 2])"
    by (rule imageI)
  from this ab have "(a, b) \<in> set (candidate_pairs n0)"
    unfolding candidate_pairs_def set_concat by (rule UnionI)
  with p show "p \<in> set (candidate_pairs n0)" by simp
qed
lemma candidate_pairs_distinct: "distinct (candidate_pairs n0)"
  unfolding candidate_pairs_def
proof (rule distinct_concat)
  have "inj_on (\<lambda>i. map (Pair i) [i + 1..n0 - 1]) (set [0..n0 - 2])"
  proof (rule inj_onI)
    fix x y
    assume x: "x \<in> set [0..n0 - 2]" and y: "y \<in> set [0..n0 - 2]"
      and e: "map (Pair x) [x + 1..n0 - 1] = map (Pair y) [y + 1..n0 - 1]"
    from x have "[x + 1..n0 - 1] = (x + 1) # [x + 1 + 1..n0 - 1]"
      by (intro upto_rec1) simp
    moreover from y have "[y + 1..n0 - 1] = (y + 1) # [y + 1 + 1..n0 - 1]"
      by (intro upto_rec1) simp
    ultimately show "x = y" using e by simp
  qed
  then show "distinct (map (\<lambda>i. map (Pair i) [i + 1..n0 - 1]) [0..n0 - 2])"
    by (simp add: distinct_map)
next
  fix ys
  assume "ys \<in> set (map (\<lambda>i. map (Pair i) [i + 1..n0 - 1]) [0..n0 - 2])"
  then obtain i where "ys = map (Pair i) [i + 1..n0 - 1]" by auto
  then show "distinct ys" by (simp add: distinct_map inj_on_def)
next
  fix ys zs
  assume "ys \<in> set (map (\<lambda>i. map (Pair i) [i + 1..n0 - 1]) [0..n0 - 2])"
    and "zs \<in> set (map (\<lambda>i. map (Pair i) [i + 1..n0 - 1]) [0..n0 - 2])" and ne: "ys \<noteq> zs"
  then obtain i k where ys: "ys = map (Pair i) [i + 1..n0 - 1]"
    and zs: "zs = map (Pair k) [k + 1..n0 - 1]" by auto
  with ne have "i \<noteq> k" by auto
  then have "fst ` set ys \<inter> fst ` set zs = {}"
    unfolding ys zs by (auto simp: image_iff)
  then show "set ys \<inter> set zs = {}" by blast
qed
section \<open>Which pairs a call expands\<close>

text \<open>
  Claim C5. A call of the search engine visits the candidate pairs, which are all
  \<open>(i, j)\<close> with \<open>0 \<le> i < j < n\<close>, each once, and it expands exactly those whose overlap
  \<open>c = column[i] AND column[j]\<close> has savings other than zero and which are not
  canonically pruned, \<open>(io, jo)\<close> being the pair recorded last, or \<open>(0, 0)\<close> when
  \<open>n = 8\<close>: the call on \<open>T\<close> is the call of the specification, in which the expanded
  pairs are combined and handed to the recursion one after the other, and no other pair
  is. This holds for \<^verbatim>\<open>bestgates\<close> with fuel for the depth of the search, and for its
  body with any recursive call that, when it returns, has continued the state it was
  given. The states of a search that starts from 8 columns of 16 bits are \<open>searchable\<close>:
  a combine keeps that property. The last part spells out which pairs the call of the
  specification visits.
\<close>

theorem expansion_rule:
  assumes "searchable T"
    and "\<And>S R. searchable S \<Longrightarrow> rec S = Inr R \<Longrightarrow> searched S R"
    and "weight T < 2 * k + 2"
  shows "bestgates (Suc k) T = engine_call (bestgates k) T \<and>
         bestgates_body rec T = engine_call rec T \<and>
         distinct (candidate_pairs (n T)) \<and>
         (\<forall>i j. (i, j) \<in> set (filter (expanded T) (candidate_pairs (n T))) \<longleftrightarrow>
                0 \<le> i \<and> i < j \<and> j < n T \<and>
                savings (mat T ! nat i AND mat T ! nat j) \<noteq> 0 \<and>
                \<not> canonically_pruned (n T) (recent_pair T) i j)"
proof -
  have "searched S R" if "searchable S" "weight S + 2 \<le> weight T" "bestgates k S = Inr R" for S R
  proof -
    from that(2) assms(3) have "weight S < 2 * k" by simp
    from bestgates_searched [OF that(1) this] that(3) show ?thesis by auto
  qed
  with assms(1) have "bestgates_body (bestgates k) T = engine_call (bestgates k) T"
    by (rule bestgates_body_engine_call)
  moreover from assms(1) have "bestgates_body rec T = engine_call rec T"
    by (rule bestgates_body_engine_call) (rule assms(2))
  moreover have "(i, j) \<in> set (filter (expanded T) (candidate_pairs (n T))) \<longleftrightarrow>
      0 \<le> i \<and> i < j \<and> j < n T \<and> savings (mat T ! nat i AND mat T ! nat j) \<noteq> 0 \<and>
      \<not> canonically_pruned (n T) (recent_pair T) i j" for i j
    by (auto simp: candidate_pairs_set expanded_def overlap_def)
  ultimately show ?thesis
    by (simp add: candidate_pairs_distinct)
qed

lemma searchable_nine: "searchable nine"
  by code_simp

lemma identity_continues: "searchable S \<Longrightarrow> Inr S = Inr R \<Longrightarrow> searched S R"
  by (simp add: searched_refl)

lemma nine_facts:
  "recent_pair nine = (2, 3)" "savings (overlap (mat nine) (0, 1)) = 1"
  "canonically_pruned (n nine) (recent_pair nine) 0 1"
  "filter (expanded nine) (candidate_pairs (n nine)) = [(0, 8), (1, 8)]"
  "weight nine = 6"
  by code_simp+

theorem expansion_rule_witness:
  "searchable nine \<and> recent_pair nine = (2, 3) \<and>
   savings (overlap (mat nine) (0, 1)) = 1 \<and>
   canonically_pruned (n nine) (recent_pair nine) 0 1 \<and>
   filter (expanded nine) (candidate_pairs (n nine)) = [(0, 8), (1, 8)] \<and>
   bestgates 65 nine = engine_call (bestgates 64) nine \<and>
   bestgates_body Inr nine = engine_call Inr nine"
  using expansion_rule [where T = nine and rec = Inr and k = 64, OF searchable_nine identity_continues]
    searchable_nine nine_facts
  by simp

section \<open>Initial states\<close>

lemma colbits_le_16: "col16 w \<Longrightarrow> colbits w \<le> 16"
proof -
  assume "col16 w"
  then have "int (colbits w) = int (popcount (uint w))" by (rule colbits_popcount)
  moreover have "popcount (uint w) \<le> length [0..<16]"
    unfolding popcount_def by (rule length_filter_le)
  ultimately show ?thesis by simp
qed

lemma sum_list_colbits_le:
  "list_all col16 cols \<Longrightarrow> sum_list (map colbits cols) \<le> 16 * length cols"
  by (induction cols) (auto dest: colbits_le_16)

lemma initial_searchable:
  assumes "initial T"
  shows "searchable T" and "weight T \<le> 128"
proof -
  from assms have s: "sized T" "n T = 8" "list_all col16 (take 8 (mat T))"
    by (simp_all add: initial_def)
  then have "length (take 8 (mat T)) = 8" by (simp add: sized_def)
  with sum_list_colbits_le [OF s(3)] show w: "weight T \<le> 128"
    by (simp add: weight_def s(2))
  with s show "searchable T" by (simp add: searchable_def)
qed

lemma copyMat_initial:
  assumes "sized p" "n p = 8" "sized T0"
  shows "copyMat p T0 = Inr (T0\<lparr>mat := take 8 (mat p) @ drop 8 (mat T0), n := 8, g := g p\<rparr>)"
proof -
  from assms have m: "memcpy (mat T0) 0 (mat p) 0 8 = Inr (take 8 (mat p) @ drop 8 (mat T0))"
    by (simp add: memcpy_def sized_def)
  from assms have d: "memcpy (ind T0) 0 (ind p) 0 0 = Inr (ind T0)"
    by (simp add: memcpy_def sized_def)
  show ?thesis
    using assms(2) by (simp add: copyMat_def m d)
qed


text \<open>The small state is what main hands to the search for the small record.\<close>

lemma handed_tiny: "handed tiny_record 0 zeroed zeroed = Inr tiny"
proof -
  have b: "bytes tiny_record" by (simp add: bytes_def tiny_record_def list_all_iff)
  have c: "packed_columns tiny_record 0 = [3, 3, 0, 0, 0, 0, 0, 0]"
    by (simp add: packed_columns_def packed_def tiny_record_def nth_append)
  let ?p = "zeroed\<lparr>mat := [3, 3, 0, 0, 0, 0, 0, 0] @ drop 8 (mat zeroed), n := 8, g := - 6\<rparr>"
  have mk: "make_orig tiny_record 0 zeroed = Inr ?p"
    using make_orig_eq [OF b sized_zeroed, of 0] by (simp add: c savings_3)
  have sp: "sized ?p" "n ?p = 8" by (simp_all add: sized_def zeroed_def)
  have "copyMat ?p zeroed = Inr tiny"
    unfolding copyMat_initial [OF sp sized_zeroed]
    by (simp add: tiny_def zeroed_def numeral_eq_Suc)
  then show ?thesis by (simp add: handed_def mk)
qed

section \<open>The result of the search\<close>

text \<open>
  Claim C3. For every initial state of 8 columns handed to the search, the search
  returns (any fuel above 64 is enough), and the gate count it leaves is at most the
  gate count the state held on entry.
\<close>

theorem search_never_worse:
  assumes "initial T" and "64 < k"
  shows "\<exists>T'. bestgates k T = Inr T' \<and> g T' \<le> g T"
proof -
  from initial_searchable [OF assms(1)] assms(2)
  have "searchable T" "weight T < 2 * k" by simp_all
  from bestgates_searched [OF this] show ?thesis
    by (auto simp: searched_def)
qed

lemma initial_tiny: "initial tiny"
  by (simp add: initial_def sized_def tiny_def col16_def list_all_iff)


theorem search_never_worse_witness:
  "initial tiny \<and> (\<exists>T'. bestgates 65 tiny = Inr T' \<and> g T' \<le> g tiny)"
  using search_never_worse [OF initial_tiny, of 65] initial_tiny by simp




section \<open>The undo step\<close>






section \<open>The Reconstructor\<close>

lemma upto_map_int: "[int a..int a + int m - 1] = map int [a..<a + m]"
proof (induction m arbitrary: a)
  case 0
  then show ?case by simp
next
  case (Suc m)
  have "[int a..int a + int (Suc m) - 1] = int a # [int (Suc a)..int (Suc a) + int m - 1]"
    by (simp add: upto_rec1 add.commute add.left_commute)
  also have "\<dots> = int a # map int [Suc a..<Suc a + m]"
    by (simp only: Suc.IH)
  also have "\<dots> = map int [a..<a + Suc m]"
    by (simp add: upt_conv_Cons)
  finally show ?case .
qed

lemma copy_columns:
  assumes "length (mat p) = 128" and "length (mat T) = 128"
  shows "for_each (copy_column p) [0..7] T = Inr (T\<lparr>mat := take 8 (mat p) @ drop 8 (mat T)\<rparr>)"
proof -
  have "8 \<le> length (mat T)" "8 \<le> length (mat p)" using assms by simp_all
  note upd = update_8 [OF this(1)] and tk = take_8 [OF this(2)]
  show ?thesis
    using assms by (simp add: copy_column_def upto_0_7 rd_in wr_in upd tk)
qed

text \<open>One round of lines 161--166 is a step of the Reconstructor on the columns so far.\<close>

lemma replay_step_factor:
  assumes len: "length (mat T) = 128" "length (ind T) = 256" and a: "a < 120"
    and v: "0 \<le> ind T ! (2 * a)" "ind T ! (2 * a) < ind T ! (2 * a + 1)" "ind T ! (2 * a + 1) < int a + 8"
  shows "\<exists>M'. replay_step (int a) T = Inr (T\<lparr>mat := M'\<rparr>) \<and> length M' = 128 \<and>
           take (Suc (a + 8)) M' = factor (take (a + 8) (mat T)) (ind T ! (2 * a), ind T ! (2 * a + 1)) \<and>
           drop (Suc (a + 8)) M' = drop (Suc (a + 8)) (mat T)"
proof -
  define i j where "i = ind T ! (2 * a)" and "j = ind T ! (2 * a + 1)"
  define I J where "I = nat i" and "J = nat j"
  define M where "M = mat T"
  define c where "c = M ! I AND M ! J"
  note v' = v [folded i_def j_def]
  from v' have IJ: "i = int I" "j = int J" "I < J" "J < a + 8" "I < a + 8" "I \<noteq> J"
    by (simp_all add: I_def J_def)
  let ?M' = "M[I := M ! I XOR c, J := M[I := M ! I XOR c] ! J XOR c, a + 8 := c]"
  have na: "nat (int a * 2) = 2 * a" "nat (int a * 2 + 1) = 2 * a + 1" by simp_all
  have r: "rd (ind T) (int a * 2) = Inr i" "rd (ind T) (int a * 2 + 1) = Inr j"
    unfolding rd_def na using len a by (simp_all add: i_def j_def)
  have lM: "length M = 128" using len by (simp add: M_def)
  have "replay_step (int a) T = Inr (T\<lparr>mat := ?M'\<rparr>)"
    unfolding replay_step_def r bnd_Inr
    using lM a IJ(3,4,5) v'(1)
    by (simp add: IJ(1,2) M_def [symmetric] rd_in wr_in Let_def c_def nat_add_distrib)
  moreover have "length ?M' = 128" using lM by simp
  moreover have "take (Suc (a + 8)) ?M' = factor (take (a + 8) M) (int I, int J)"
    using take_combined [of M "a + 8" I J c] lM a IJ by (simp add: c_def)
  moreover have "drop (Suc (a + 8)) ?M' = drop (Suc (a + 8)) M"
    using IJ by simp
  ultimately show ?thesis
    unfolding M_def IJ(1,2) [symmetric] i_def j_def by blast
qed

lemma replay_loop:
  assumes "length (mat T) = 128" "length (ind T) = 256" "a + m \<le> 120"
    and "valid_history (int a + 8) (history (ind T) a (a + m))"
  shows "\<exists>M'. for_each replay_step (map int [a..<a + m]) T = Inr (T\<lparr>mat := M'\<rparr>) \<and>
           length M' = 128 \<and>
           take (a + m + 8) M' = reconstruct (take (a + 8) (mat T)) (history (ind T) a (a + m)) \<and>
           drop (a + m + 8) M' = drop (a + m + 8) (mat T)"
  using assms
proof (induction m arbitrary: a T)
  case 0
  have "T\<lparr>mat := mat T\<rparr> = T" by simp
  with 0 show ?case
    by (intro exI [of _ "mat T"]) simp
next
  case (Suc m)
  let ?p = "(ind T ! (2 * a), ind T ! (2 * a + 1))"
  have H: "history (ind T) a (a + Suc m) = ?p # history (ind T) (Suc a) (Suc a + m)"
    using history_Cons [of "Suc m" "ind T" a] by simp
  from Suc.prems(4) have v: "0 \<le> fst ?p" "fst ?p < snd ?p" "snd ?p < int a + 8"
    and vr: "valid_history (int (Suc a) + 8) (history (ind T) (Suc a) (Suc a + m))"
    unfolding H by (simp_all add: add.commute add.left_commute)
  from Suc.prems(3) have a: "a < 120" by simp
  from replay_step_factor [OF Suc.prems(1,2) a] v
  obtain M1 where M1: "replay_step (int a) T = Inr (T\<lparr>mat := M1\<rparr>)" "length M1 = 128"
    "take (Suc (a + 8)) M1 = factor (take (a + 8) (mat T)) ?p"
    "drop (Suc (a + 8)) M1 = drop (Suc (a + 8)) (mat T)"
    by auto
  let ?T1 = "T\<lparr>mat := M1\<rparr>"
  have "\<exists>M'. for_each replay_step (map int [Suc a..<Suc a + m]) ?T1 = Inr (?T1\<lparr>mat := M'\<rparr>) \<and>
           length M' = 128 \<and>
           take (Suc a + m + 8) M' = reconstruct (take (Suc a + 8) (mat ?T1)) (history (ind ?T1) (Suc a) (Suc a + m)) \<and>
           drop (Suc a + m + 8) M' = drop (Suc a + m + 8) (mat ?T1)"
    using Suc.prems(2,3) M1(2) vr by (intro Suc.IH) simp_all
  then obtain M' where M': "for_each replay_step (map int [Suc a..<Suc a + m]) ?T1 = Inr (T\<lparr>mat := M'\<rparr>)"
    "length M' = 128"
    "take (Suc a + m + 8) M' = reconstruct (take (Suc (a + 8)) M1) (history (ind T) (Suc a) (Suc a + m))"
    "drop (Suc a + m + 8) M' = drop (Suc a + m + 8) M1"
    by auto
  have "drop (Suc a + m + 8) M1 = drop m (drop (Suc (a + 8)) M1)"
    by (simp add: algebra_simps)
  also have "\<dots> = drop (Suc a + m + 8) (mat T)"
    unfolding M1(4) by (simp add: algebra_simps)
  finally have dr: "drop (Suc a + m + 8) M' = drop (Suc a + m + 8) (mat T)"
    using M'(4) by simp
  have fe: "for_each replay_step (map int [a..<a + Suc m]) T = Inr (T\<lparr>mat := M'\<rparr>)"
    using M1(1) M'(1) by (simp add: upt_conv_Cons del: upt_Suc)
  show ?case
    using fe M'(2,3) dr unfolding H M1(3)
    by (intro exI [of _ M']) simp
qed

lemma bestmat_replay:
  assumes "sized p" and "sized T" and "8 \<le> n T" and "n T \<le> 128"
    and "valid_history 8 (history (ind T) 0 (nat (n T - 8)))"
  shows "\<exists>M'. bestmat p T = Inr (p\<lparr>g := g T\<rparr>, T\<lparr>mat := M'\<rparr>) \<and> length M' = 128 \<and>
           take (nat (n T)) M' = reconstruct (take 8 (mat p)) (history (ind T) 0 (nat (n T - 8))) \<and>
           drop (nat (n T)) M' = drop (nat (n T)) (mat T)"
proof -
  define m where "m = nat (n T - 8)"
  from assms(3,4) have m: "m \<le> 120" "n T = int m + 8" "nat (n T) = m + 8"
    by (simp_all add: m_def)
  let ?T1 = "T\<lparr>mat := take 8 (mat p) @ drop 8 (mat T)\<rparr>"
  from assms(1,2) have len: "length (mat p) = 128" "length (mat T) = 128" "length (ind T) = 256"
    by (simp_all add: sized_def)
  have c: "for_each (copy_column (p\<lparr>g := g T\<rparr>)) [0..7] T = Inr ?T1"
    using copy_columns [of "p\<lparr>g := g T\<rparr>" T] len by simp
  have up: "[0..n ?T1 - 8 - 1] = map int [0..<0 + m]"
    using upto_map_int [of 0 m] by (simp add: m(2))
  have l1: "length (mat ?T1) = 128" "length (ind ?T1) = 256" "0 + m \<le> 120"
    using len m(1) by simp_all
  have v1: "valid_history (int 0 + 8) (history (ind ?T1) 0 (0 + m))"
    using assms(5) by (simp add: m_def)
  from replay_loop [OF l1 v1]
  obtain M' where M': "for_each replay_step (map int [0..<0 + m]) ?T1 = Inr (T\<lparr>mat := M'\<rparr>)"
    "length M' = 128"
    "take (m + 8) M' = reconstruct (take 8 (mat p)) (history (ind T) 0 m)"
    "drop (m + 8) M' = drop (m + 8) (mat T)"
    using len by auto
  have "bestmat p T = Inr (p\<lparr>g := g T\<rparr>, T\<lparr>mat := M'\<rparr>)"
    unfolding bestmat_def Let_def c bnd_Inr up M'(1) by simp
  with M'(2,3,4) show ?thesis
    unfolding m(3) m_def [symmetric] by blast
qed

text \<open>
  Claim C10. For every \<open>p\<close> (an object other than the working state, of the declared
  sizes) and a working state whose history is valid, \<^verbatim>\<open>bestmat(p)\<close> returns and
  changes of \<open>p\<close> only the gate count, which becomes that of the working state; the
  columns and the column count of \<open>p\<close> stay. Of the working state only the column array
  changes: its first \<open>n\<close> entries become the columns the Reconstructor computes from
  the first 8 columns of \<open>p\<close> and the history, the entries behind them stay.
\<close>

theorem bestmat_frame:
  assumes "sized p" and "sized T" and "8 \<le> n T" and "n T \<le> 128"
    and "valid_history 8 (history (ind T) 0 (nat (n T - 8)))"
  shows "\<exists>p' T'. bestmat p T = Inr (p', T') \<and>
           p' = p\<lparr>g := g T\<rparr> \<and> mat p' = mat p \<and> n p' = n p \<and> ind p' = ind p \<and>
           ind T' = ind T \<and> n T' = n T \<and> g T' = g T \<and> sized T' \<and>
           take (nat (n T)) (mat T') = reconstruct (take 8 (mat p)) (history (ind T) 0 (nat (n T - 8))) \<and>
           drop (nat (n T)) (mat T') = drop (nat (n T)) (mat T)"
proof -
  from bestmat_replay [OF assms]
  obtain M' where M': "bestmat p T = Inr (p\<lparr>g := g T\<rparr>, T\<lparr>mat := M'\<rparr>)" "length M' = 128"
    "take (nat (n T)) M' = reconstruct (take 8 (mat p)) (history (ind T) 0 (nat (n T - 8)))"
    "drop (nat (n T)) M' = drop (nat (n T)) (mat T)"
    by blast
  then have "sized (T\<lparr>mat := M'\<rparr>)" using assms(2) by (simp add: sized_def)
  with M' show ?thesis by simp
qed

lemma tiny_best_fields:
  "sized tiny_best" "n tiny_best = 9" "g tiny_best = - 7"
  "history (ind tiny_best) 0 (Suc 0) = [(0, 1)]"
  by (simp_all add: tiny_best_def sized_def history_def)

lemma factor_tiny:
  "factor (take 8 (mat tiny)) (0, 1) = [0, 0, 0, 0, 0, 0, 0, 0, 3]"
  by (simp add: tiny_def factor_def overlap_def Let_def numeral_eq_Suc)



theorem bestmat_frame_witness:
  "sized tiny \<and> sized tiny_best \<and> valid_history 8 (history (ind tiny_best) 0 (Suc 0)) \<and>
   (\<exists>T'. bestmat tiny tiny_best = Inr (tiny\<lparr>g := - 7\<rparr>, T') \<and>
      take 9 (mat T') = [0, 0, 0, 0, 0, 0, 0, 0, 3] \<and> ind T' = ind tiny_best)"
  using bestmat_frame [OF sized_tiny tiny_best_fields(1), simplified tiny_best_fields]
    sized_tiny tiny_best_fields(1)
  by (auto simp: tiny_best_fields factor_tiny)

section \<open>Search and replay\<close>

lemma search_then_replay:
  assumes "initial T" and "sized p" and "take 8 (mat p) = take 8 (mat T)" and "64 < k"
  shows "\<exists>T' T''. bestgates k T = Inr T' \<and> bestmat p T' = Inr (p\<lparr>g := g T'\<rparr>, T'') \<and>
           take 8 (mat T') = take 8 (mat T) \<and>
           valid_history 8 (history (ind T') 0 (nat (n T' - 8))) \<and>
           replay_gates (take 8 (mat T)) (g T) (history (ind T') 0 (nat (n T' - 8))) = g T' \<and>
           take (nat (n T')) (mat T'') =
             reconstruct (take 8 (mat T)) (history (ind T') 0 (nat (n T' - 8)))"
proof -
  from initial_searchable [OF assms(1)] assms(4)
  have s: "searchable T" "weight T < 2 * k" by simp_all
  from assms(1) have n8: "n T = 8" by (simp add: initial_def)
  from bestgates_searched [OF s] obtain T' where T': "bestgates k T = Inr T'" "searched T T'"
    by blast
  note sf = searched_facts [OF s(1) T'(2)]
  from sf(4,6,8) n8 have f: "take 8 (mat T') = take 8 (mat T)" "8 \<le> n T'" "n T' \<le> 128"
    by simp_all
  from sf(10) have h: "valid_history 8 (history (ind T') 0 (nat (n T' - 8)))"
    "replay_gates (take 8 (mat T)) (g T) (history (ind T') 0 (nat (n T' - 8))) = g T'"
    by (simp_all add: recorded_def n8)
  from bestmat_replay [OF assms(2) sf(1) f(2,3) h(1)]
  obtain M' where M': "bestmat p T' = Inr (p\<lparr>g := g T'\<rparr>, T'\<lparr>mat := M'\<rparr>)"
    "take (nat (n T')) M' = reconstruct (take 8 (mat p)) (history (ind T') 0 (nat (n T' - 8)))"
    by blast
  from T'(1) M' f(1) h show ?thesis
    by (simp add: assms(3))
qed

text \<open>Lines 207--217 for one pair of matrices: the counts, the copy, the search, the replay.\<close>

lemma optimize_returns:
  assumes "bytes im" and "sized p0" and "sized T0" and "64 < k"
  shows "\<exists>p T T' T''. make_orig im i p0 = Inr p \<and> copyMat p T0 = Inr T \<and>
           bestgates k T = Inr T' \<and> optimize k p T0 = Inr (p\<lparr>g := g T'\<rparr>, T'') \<and>
           g T' \<le> g p \<and>
           take (nat (n T')) (mat T'') =
             reconstruct (packed_columns im i) (history (ind T') 0 (nat (n T' - 8)))"
proof -
  have "\<exists>p. make_orig im i p0 = Inr p \<and> sized p \<and> n p = 8 \<and> take 8 (mat p) = packed_columns im i"
    using make_orig_eq [OF assms(1,2), of i] assms(2)
    by (simp add: sized_def length_packed_columns)
  then obtain p where p: "make_orig im i p0 = Inr p" "sized p" "n p = 8"
    "take 8 (mat p) = packed_columns im i" by blast
  define T where "T = T0\<lparr>mat := take 8 (mat p) @ drop 8 (mat T0), n := 8, g := g p\<rparr>"
  have cp: "copyMat p T0 = Inr T"
    unfolding T_def by (rule copyMat_initial [OF p(2,3) assms(3)])
  have T: "initial T" "take 8 (mat p) = take 8 (mat T)" "g T = g p"
    using assms(3) packed_columns_col16 [OF assms(1), of i] p(4)
    by (simp_all add: T_def initial_def sized_def length_packed_columns)
  from search_then_replay [OF T(1) p(2) T(2) assms(4)]
  obtain T' T'' where r: "bestgates k T = Inr T'" "bestmat p T' = Inr (p\<lparr>g := g T'\<rparr>, T'')"
    "take (nat (n T')) (mat T'') = reconstruct (take 8 (mat T)) (history (ind T') 0 (nat (n T' - 8)))"
    by blast
  from initial_searchable [OF T(1)] assms(4) have "searchable T" "weight T < 2 * k" by simp_all
  from bestgates_searched [OF this] r(1) T(3) have le: "g T' \<le> g p" by (auto simp: searched_def)
  have opt: "optimize k p T0 = Inr (p\<lparr>g := g T'\<rparr>, T'')"
    unfolding optimize_def cp bnd_Inr r(1) r(2) by (rule refl)
  from r(3) have "take (nat (n T')) (mat T'') =
      reconstruct (packed_columns im i) (history (ind T') 0 (nat (n T' - 8)))"
    by (simp only: T(2) [symmetric] p(4))
  with p(1) cp r(1) opt le show ?thesis by blast
qed




section \<open>The record of the header comment\<close>

text \<open>
  The header comment of \<^verbatim>\<open>bestboth.c\<close> documents the output for basis 4. The two
  lists of index pairs it prints are valid histories for the packed columns of the
  record, and by the rule of combine they lead from the baseline counts 42 and 38 to 20
  gates with 17 columns and to 18 gates with 18 columns.
\<close>

lemma documented_history_0:
  "valid_history 8 [(0, 2), (0, 3), (1, 7), (2, 10), (3, 11), (4, 7), (5, 8), (6, 10), (4, 15)] \<and>
   replay_gates (packed_columns record4 0) 42
     [(0, 2), (0, 3), (1, 7), (2, 10), (3, 11), (4, 7), (5, 8), (6, 10), (4, 15)] = 20"
  unfolding columns_record4_0
  by (simp add: factor_def overlap_def share_entry_def Let_def)

lemma documented_history_1:
  "valid_history 8 [(0, 4), (1, 3), (1, 7), (2, 4), (2, 8), (2, 6), (3, 13), (5, 11), (6, 9), (10, 12)] \<and>
   replay_gates (packed_columns record4 1) 38
     [(0, 4), (1, 3), (1, 7), (2, 4), (2, 8), (2, 6), (3, 13), (5, 11), (6, 9), (10, 12)] = 18"
  unfolding columns_record4_1
  by (simp add: factor_def overlap_def share_entry_def Let_def)

lemma baseline_record4:
  "\<exists>p0 p1. make_orig record4 0 zeroed = Inr p0 \<and> g p0 = 42 \<and>
     make_orig record4 1 zeroed = Inr p1 \<and> g p1 = 38"
proof -
  let ?c0 = "[0x8C98, 0x79F3, 0x05F2, 0xEB48, 0x1209, 0x0481, 0x51A9, 0x53FF] :: 32 word list"
  let ?c1 = "[0x6458, 0x782D, 0x6E9E, 0x8C0B, 0x68DC, 0x2904, 0xDE03, 0x6024] :: 32 word list"
  have "claimed_baseline ?c0 = 50" "claimed_baseline ?c1 = 46"
    unfolding claimed_baseline_def using colbits_record4_0 colbits_record4_1 by simp_all
  moreover have "0 \<notin> set ?c0" "0 \<notin> set ?c1" by simp_all
  ultimately have sv: "sum_list (map savings ?c0) = 50" "sum_list (map savings ?c1) = 46"
    using savings_nonzero [of ?c0] savings_nonzero [of ?c1] by simp_all
  have "make_orig record4 0 zeroed =
        Inr (zeroed\<lparr>mat := ?c0 @ drop 8 (mat zeroed), n := 8, g := sum_list (map savings ?c0) - 8\<rparr>)"
    using make_orig_eq [OF bytes_record4 sized_zeroed, of 0] by (simp only: columns_record4_0)
  moreover have "make_orig record4 1 zeroed =
        Inr (zeroed\<lparr>mat := ?c1 @ drop 8 (mat zeroed), n := 8, g := sum_list (map savings ?c1) - 8\<rparr>)"
    using make_orig_eq [OF bytes_record4 sized_zeroed, of 1] by (simp only: columns_record4_1)
  ultimately show ?thesis using sv by simp
qed

section \<open>The S-box and its inverse\<close>

lemma sbox_ok_all: "list_all sbox_ok (map int [0..<256])"
  by code_simp

text \<open>
  Claim C9. For every byte \<open>x\<close> in 0..255, \<open>iSbox (Sbox x) = x\<close> and \<open>Sbox (iSbox x) = x\<close>,
  and both functions map bytes to bytes: they are mutually inverse permutations of 0..255.
\<close>

theorem Sbox_iSbox_inverse:
  assumes "0 \<le> x" and "x \<le> 255"
  shows "iSbox (Sbox x) = x \<and> Sbox (iSbox x) = x \<and>
         0 \<le> Sbox x \<and> Sbox x \<le> 255 \<and> 0 \<le> iSbox x \<and> iSbox x \<le> 255"
proof -
  from assms have lt: "nat x < 256" and eq: "int (nat x) = x" by simp_all
  have "\<forall>k<256. sbox_ok (int k)"
    using sbox_ok_all by (simp add: list_all_iff)
  with lt have "sbox_ok (int (nat x))" by blast
  with eq have "sbox_ok x" by simp
  then show ?thesis by (simp add: sbox_ok_def)
qed

theorem Sbox_iSbox_inverse_witness:
  "iSbox (Sbox 83) = 83 \<and> Sbox (iSbox 83) = 83 \<and>
   0 \<le> Sbox 83 \<and> Sbox 83 \<le> 255 \<and> 0 \<le> iSbox 83 \<and> iSbox 83 \<le> 255"
  using Sbox_iSbox_inverse [of 83] by simp


end
